theory Spec2Isabelle
  imports Main
begin

section \<open>Strings, arrays and regular-expression character classes\<close>

text \<open>
  A JavaScript string is modelled as a HOL \<^typ>\<open>string\<close>; a character stands for the
  code unit of the same number, so the model covers the code units U+0000 to U+00FF.
  The character classes below are the ECMAScript ones cut down to that range.
\<close>

definition is_space :: "char \<Rightarrow> bool" where
  \<comment> \<open>the class \<^verbatim>\<open>\s\<close>: TAB, LF, VT, FF, CR, SPACE, NBSP\<close>
  "is_space c = (of_char c \<in> {9, 10, 11, 12, 13, 32, 160 :: nat})"

definition is_word :: "char \<Rightarrow> bool" where
  \<comment> \<open>the class \<^verbatim>\<open>\w\<close>: \<^verbatim>\<open>[A-Za-z0-9_]\<close>\<close>
  "is_word c = (let n = of_char c :: nat in
     (65 \<le> n \<and> n \<le> 90) \<or> (97 \<le> n \<and> n \<le> 122) \<or> (48 \<le> n \<and> n \<le> 57) \<or> n = 95)"

definition is_line_terminator :: "char \<Rightarrow> bool" where
  \<comment> \<open>what \<^verbatim>\<open>.\<close> refuses (no \<^verbatim>\<open>s\<close> flag): LF and CR\<close>
  "is_line_terminator c = (of_char c \<in> {10, 13 :: nat})"

definition is_dot :: "char \<Rightarrow> bool" where
  "is_dot c = (\<not> is_line_terminator c)"

text \<open>\<^verbatim>\<open>String.prototype.split("\n")\<close>: the result always has at least one element.\<close>

fun split_nl :: "string \<Rightarrow> string list" where
  "split_nl [] = [[]]"
| "split_nl (c # cs) =
     (if c = CHR 0x0A then [] # split_nl cs
      else (case split_nl cs of
              [] \<Rightarrow> [[c]]
            | l # ls \<Rightarrow> (c # l) # ls))"

text \<open>\<^verbatim>\<open>Array.prototype.join("\n")\<close> on an array of strings.\<close>

fun join_nl :: "string list \<Rightarrow> string" where
  "join_nl [] = []"
| "join_nl [l] = l"
| "join_nl (l # ls) = l @ CHR 0x0A # join_nl ls"

text \<open>\<^verbatim>\<open>Array.prototype.findIndex\<close>: the first index whose element passes, else \<open>-1\<close>.\<close>

fun findIndex :: "('a \<Rightarrow> bool) \<Rightarrow> 'a list \<Rightarrow> int" where
  "findIndex P [] = - 1"
| "findIndex P (x # xs) =
     (if P x then 0
      else (let i = findIndex P xs in if i = - 1 then - 1 else i + 1))"

text \<open>
  \<^verbatim>\<open>Array.prototype.slice(start, end)\<close> with its clamping of both bounds: a negative bound
  counts from the end, and a bound past either end is cut to it.
\<close>

definition slice_bound :: "nat \<Rightarrow> int \<Rightarrow> nat" where
  "slice_bound len i = (if i < 0 then nat (max (int len + i) 0) else min (nat i) len)"

definition slice :: "'a list \<Rightarrow> int \<Rightarrow> int \<Rightarrow> 'a list" where
  "slice xs start end =
     (let k = slice_bound (length xs) start; fin = slice_bound (length xs) end
      in take (fin - k) (drop k xs))"

definition slice_from :: "'a list \<Rightarrow> int \<Rightarrow> 'a list" where
  \<comment> \<open>\<^verbatim>\<open>slice(start)\<close>: the end defaults to the length\<close>
  "slice_from xs start = slice xs start (int (length xs))"

section \<open>The property line pattern\<close>

text \<open>
  \<^verbatim>\<open>const propertyLineRegex = /^\s*([\w]+)::\s+(.*?)\s*?$/;\<close>

  The pattern has no flags, so \<^verbatim>\<open>^\<close> and \<^verbatim>\<open>$\<close> are the two ends of the string.
  \<open>propertyLineRegex_tail\<close> decides the part after the first whitespace character that
  follows \<^verbatim>\<open>::\<close>, that is \<^verbatim>\<open>\s*(.*?)\s*?$\<close>: more whitespace, characters that are not
  line terminators, then whitespace up to the end. \<open>propertyLineRegex_match\<close> is
  \<^verbatim>\<open>line.match(propertyLineRegex)\<close>, giving the first capture group (the key) of a match;
  the second group is never read by the program. Lemma \<open>propertyLineRegex_match_iff\<close>
  below relates both to the language of the pattern.
\<close>

definition propertyLineRegex_tail :: "string \<Rightarrow> bool" where
  "propertyLineRegex_tail r = list_all is_space (dropWhile is_dot (dropWhile is_space r))"

definition propertyLineRegex_match :: "string \<Rightarrow> string option" where
  "propertyLineRegex_match line =
     (let r1 = dropWhile is_space line;
          key = takeWhile is_word r1
      in if key = [] then None
         else (case dropWhile is_word r1 of
                 c1 # c2 # c3 # r3 \<Rightarrow>
                   if c1 = CHR '':'' \<and> c2 = CHR '':'' \<and> is_space c3 \<and> propertyLineRegex_tail r3
                   then Some key else None
               | _ \<Rightarrow> None))"

definition propertyLineRegex_test :: "string \<Rightarrow> bool" where
  "propertyLineRegex_test line = (propertyLineRegex_match line \<noteq> None)"

section \<open>The property line scanner\<close>

definition getFirstPropertyLine :: "string list \<Rightarrow> int" where
  "getFirstPropertyLine lines =
     (let firstPropertyLine = findIndex propertyLineRegex_test lines
      in if firstPropertyLine = - 1 then int (length lines) else firstPropertyLine)"

definition getLastPropertyLine :: "string list \<Rightarrow> int \<Rightarrow> int" where
  "getLastPropertyLine lines firstPropLine =
     (let lastPropLine = findIndex (\<lambda>line. \<not> propertyLineRegex_test line) (slice_from lines firstPropLine)
      in (if lastPropLine = - 1 then int (length lines) else lastPropLine) - 1)"

definition removeProperties :: "string list \<Rightarrow> string list" where
  "removeProperties allLines =
     (let firstPropertyLine = getFirstPropertyLine allLines;
          contentLines = slice allLines 0 firstPropertyLine
      in contentLines)"

section \<open>JavaScript values and objects\<close>

text \<open>
  The values a property can hold: plain data. The program never computes with a number, it
  only prints it and tests it for zero, so a number is carried by the text that
  \<open>ToString\<close> gives it (\<open>1\<close>, \<open>4.5\<close>, \<open>1e+21\<close>, \<open>NaN\<close>); that text determines
  the number, up to the sign of zero. An object is the list of its own enumerable
  properties in the order \<^verbatim>\<open>Object.keys\<close> enumerates them: array-index keys first, in
  ascending numeric order, then the other keys in the order of their creation. Its
  prototype is \<^verbatim>\<open>Object.prototype\<close>, as for every object made by a literal, by
  \<^verbatim>\<open>Object.fromEntries\<close> or received as data from the host; the members it inherits from
  there are named by \<open>inheritedName\<close> below and are not values of the model.
\<close>

datatype jsval =
    JUndefined
  | JNull
  | JBool bool
  | JNum string
  | JStr string
  | JArr "jsval list"
  | JObj "(string \<times> jsval) list"

type_synonym obj = "(string \<times> jsval) list"

datatype error = TypeError

definition digit_char :: "nat \<Rightarrow> char" where
  "digit_char d = char_of (48 + d)"

function show_nat :: "nat \<Rightarrow> string" where
  "show_nat n = (if n < 10 then [digit_char n] else show_nat (n div 10) @ [digit_char (n mod 10)])"
  by pat_completeness auto
termination
  by (relation "measure id") auto

declare show_nat.simps [simp del]

definition is_digit :: "char \<Rightarrow> bool" where
  "is_digit c = (let n = of_char c :: nat in 48 \<le> n \<and> n \<le> 57)"

definition indexValue :: "string \<Rightarrow> int" where
  "indexValue k = foldl (\<lambda>n c. 10 * n + (of_char c - 48)) 0 k"

definition isArrayIndex :: "string \<Rightarrow> bool" where
  \<comment> \<open>a canonical numeric string of an integer from \<open>0\<close> to \<open>2^32 - 2\<close>\<close>
  "isArrayIndex k =
     (k \<noteq> [] \<and> list_all is_digit k \<and> (k = ''0'' \<or> hd k \<noteq> CHR ''0'') \<and> indexValue k < 4294967295)"

text \<open>
  The names of the members of \<^verbatim>\<open>Object.prototype\<close>. Eleven of them are functions; the
  twelfth, \<^verbatim>\<open>__proto__\<close>, is an accessor: read, it gives the prototype itself; written with an
  object or \<^verbatim>\<open>null\<close>, it replaces the prototype of the object written to; written with any
  other value, it does nothing.
\<close>

definition inheritedName :: "string \<Rightarrow> bool" where
  "inheritedName key =
     (key \<in> set [''constructor'', ''hasOwnProperty'', ''isPrototypeOf'', ''propertyIsEnumerable'',
        ''toLocaleString'', ''toString'', ''valueOf'', ''__proto__'', ''__defineGetter__'',
        ''__defineSetter__'', ''__lookupGetter__'', ''__lookupSetter__''])"

text \<open>
  Reading \<^verbatim>\<open>o[key]\<close> among the own properties of an object: an absent key reads as
  \<^verbatim>\<open>undefined\<close>. This is the whole of \<^verbatim>\<open>o[key]\<close> except when the key is absent and is an
  \<open>inheritedName\<close>: then \<^verbatim>\<open>o[key]\<close> is the inherited member, which is not a value of the
  model. The statements below that depend on such a read say that they leave it out.
\<close>

definition obj_get :: "obj \<Rightarrow> string \<Rightarrow> jsval" where
  "obj_get ob key = (case map_of ob key of None \<Rightarrow> JUndefined | Some v \<Rightarrow> v)"

definition ownRead :: "obj \<Rightarrow> string \<Rightarrow> bool" where
  \<comment> \<open>\<^verbatim>\<open>o[key]\<close> does not reach the prototype, so \<open>obj_get\<close> is the read\<close>
  "ownRead ob key = (map_of ob key \<noteq> None \<or> \<not> inheritedName key)"

text \<open>
  Defining the own property \<open>key\<close> of an object, as \<^verbatim>\<open>Object.fromEntries\<close> and the spread
  \<^verbatim>\<open>{ ...v }\<close> do: an existing key keeps its place; a new array-index key goes among the
  index keys by its number; any other new key goes last.
\<close>

fun insertIndex :: "string \<Rightarrow> jsval \<Rightarrow> obj \<Rightarrow> obj" where
  "insertIndex key v [] = [(key, v)]"
| "insertIndex key v (p # ps) =
     (if isArrayIndex (fst p) \<and> indexValue (fst p) < indexValue key
      then p # insertIndex key v ps
      else (key, v) # p # ps)"

fun updateKey :: "string \<Rightarrow> jsval \<Rightarrow> obj \<Rightarrow> obj" where
  "updateKey key v [] = [(key, v)]"
| "updateKey key v (p # ps) = (if fst p = key then (key, v) # ps else p # updateKey key v ps)"

definition obj_set :: "obj \<Rightarrow> string \<Rightarrow> jsval \<Rightarrow> obj" where
  "obj_set ob key v =
     (if map_of ob key = None \<and> isArrayIndex key then insertIndex key v ob
      else updateKey key v ob)"

text \<open>
  The assignment \<^verbatim>\<open>target[key] = v\<close>. It defines the own property, with one exception: on
  an object that has no own property \<^verbatim>\<open>__proto__\<close> the assignment calls the setter that
  \<^verbatim>\<open>Object.prototype\<close> has under that name, and no own property appears. The eleven other
  inherited members are writable data properties, which an assignment shadows by an own
  property like any new key. When the value assigned to \<^verbatim>\<open>__proto__\<close> is an object or an
  array, the setter makes it the prototype of the target, and later reads of the target find
  its members; the list of own properties does not record that, and the statements about
  reads after such an assignment leave it out (\<open>protoFree\<close>).
\<close>

definition obj_assign :: "obj \<Rightarrow> string \<Rightarrow> jsval \<Rightarrow> obj" where
  "obj_assign ob key v =
     (if key = ''__proto__'' \<and> map_of ob key = None then ob else obj_set ob key v)"

definition Object_fromEntries :: "(string \<times> jsval) list \<Rightarrow> obj" where
  "Object_fromEntries es = foldl (\<lambda>ob e. obj_set ob (fst e) (snd e)) [] es"

text \<open>
  \<^verbatim>\<open>Object.keys(v)\<close> and \<^verbatim>\<open>v[key]\<close> for any value: an array and a string have their
  indices as keys, the other primitives have none.
\<close>

fun Object_keys :: "jsval \<Rightarrow> string list" where
  "Object_keys (JObj es) = map fst es"
| "Object_keys (JArr xs) = map show_nat [0..<length xs]"
| "Object_keys (JStr s) = map show_nat [0..<length s]"
| "Object_keys _ = []"

fun js_get :: "jsval \<Rightarrow> string \<Rightarrow> jsval" where
  "js_get (JObj es) key = obj_get es key"
| "js_get (JArr xs) key =
     (if isArrayIndex key \<and> indexValue key < int (length xs) then xs ! nat (indexValue key)
      else JUndefined)"
| "js_get (JStr s) key =
     (if isArrayIndex key \<and> indexValue key < int (length s) then JStr [s ! nat (indexValue key)]
      else JUndefined)"
| "js_get _ key = JUndefined"

fun truthy :: "jsval \<Rightarrow> bool" where
  "truthy JUndefined = False"
| "truthy JNull = False"
| "truthy (JBool b) = b"
| "truthy (JNum n) = (n \<noteq> ''0'' \<and> n \<noteq> ''NaN'')"
| "truthy (JStr s) = (s \<noteq> [])"
| "truthy (JArr xs) = True"
| "truthy (JObj es) = True"

text \<open>
  \<^verbatim>\<open>${value}\<close> in a template literal, that is \<open>ToString\<close>: an array prints its elements
  joined by commas, with \<^verbatim>\<open>null\<close> and \<^verbatim>\<open>undefined\<close> elements printed as nothing.
\<close>

fun join_comma :: "string list \<Rightarrow> string" where
  "join_comma [] = []"
| "join_comma [l] = l"
| "join_comma (l # ls) = l @ CHR '','' # join_comma ls"

text \<open>
  Evaluating a list of results in order: the first that throws ends the evaluation.
\<close>

fun collect :: "(error + 'a) list \<Rightarrow> error + 'a list" where
  "collect [] = Inr []"
| "collect (x # xs) =
     (case x of
        Inl e \<Rightarrow> Inl e
      | Inr y \<Rightarrow> (case collect xs of Inl e \<Rightarrow> Inl e | Inr ys \<Rightarrow> Inr (y # ys)))"

text \<open>
  An object prints through the \<^verbatim>\<open>toString\<close> it finds: the inherited one gives
  \<^verbatim>\<open>[object Object]\<close>; an own property \<^verbatim>\<open>toString\<close> hides it, and since no value of the
  model is callable, neither it nor \<^verbatim>\<open>valueOf\<close> (own and not callable, or inherited and
  returning the object) yields a primitive, so the conversion throws a \<^verbatim>\<open>TypeError\<close>.
\<close>

fun toString :: "jsval \<Rightarrow> error + string" where
  "toString JUndefined = Inr ''undefined''"
| "toString JNull = Inr ''null''"
| "toString (JBool b) = Inr (if b then ''true'' else ''false'')"
| "toString (JNum n) = Inr n"
| "toString (JStr s) = Inr s"
| "toString (JArr xs) =
     (case collect (map (\<lambda>x. if x = JUndefined \<or> x = JNull then Inr [] else toString x) xs) of
        Inl e \<Rightarrow> Inl e
      | Inr ss \<Rightarrow> Inr (join_comma ss))"
| "toString (JObj es) =
     (if map_of es ''toString'' = None then Inr ''[object Object]'' else Inl TypeError)"

section \<open>The conversion: rewriting the source block\<close>

text \<open>
  \<^verbatim>\<open>removeProperties(allLines).join("\n")\<close> with \<^verbatim>\<open>allLines = srcBlock.content.split("\n")\<close>:
  the text \<open>main\<close> writes back to the source block once its properties have moved.
\<close>

definition srcBlockRewrite :: "string \<Rightarrow> string" where
  "srcBlockRewrite content = join_nl (removeProperties (split_nl content))"

section \<open>Blocks\<close>

text \<open>
  The fields of a \<^verbatim>\<open>BlockEntity\<close> the program reads. \<^verbatim>\<open>properties\<close> is optional in the
  host's type; of a child only its \<^verbatim>\<open>uuid\<close> is read, of \<^verbatim>\<open>refs\<close> and \<^verbatim>\<open>propertiesOrder\<close>
  only the length.
\<close>

type_synonym uuid = string

record block =
  uuid :: uuid
  content :: string
  properties :: "obj option"
  propertiesOrder :: "string list"
  refs :: "int list"
  children :: "uuid list"

section \<open>The property extractor\<close>

text \<open>
  \<^verbatim>\<open>key.toLowerCase()\<close>, on the code units of the model: the letters \<open>A-Z\<close> and the
  capital letters of the Latin-1 supplement move up by 32.
\<close>

definition toLowerCase_char :: "char \<Rightarrow> char" where
  "toLowerCase_char c =
     (let n = of_char c :: nat
      in if (65 \<le> n \<and> n \<le> 90) \<or> (192 \<le> n \<and> n \<le> 222 \<and> n \<noteq> 215) then char_of (n + 32) else c)"

definition toLowerCase :: "string \<Rightarrow> string" where
  "toLowerCase s = map toLowerCase_char s"

definition is_lower_letter :: "char \<Rightarrow> bool" where
  \<comment> \<open>the class \<^verbatim>\<open>[a-z]\<close>\<close>
  "is_lower_letter c = (let n = of_char c :: nat in 97 \<le> n \<and> n \<le> 122)"

text \<open>
  \<^verbatim>\<open>s.replace(/[^a-z]/, "")\<close>: the pattern has no \<^verbatim>\<open>g\<close> flag, so the first match only is
  replaced.
\<close>

fun replace_nonletter :: "string \<Rightarrow> string" where
  "replace_nonletter [] = []"
| "replace_nonletter (c # cs) = (if is_lower_letter c then c # replace_nonletter cs else cs)"

definition formattedKey :: "string \<Rightarrow> string" where
  "formattedKey key = replace_nonletter (toLowerCase key)"

text \<open>
  \<^verbatim>\<open>getPropertiesFromBlockContent\<close>. Reading \<^verbatim>\<open>srcBlock.properties[formattedKey]\<close> throws a
  \<^verbatim>\<open>TypeError\<close> when the block has no \<^verbatim>\<open>properties\<close>; the read happens once per matching
  line, so a block without one never throws.
\<close>

definition propertyEntry :: "obj \<Rightarrow> string \<Rightarrow> string \<times> jsval" where
  "propertyEntry props key = (key, obj_get props (formattedKey key))"

definition matchedKeys :: "string list \<Rightarrow> string list" where
  \<comment> \<open>\<^verbatim>\<open>.map(line => line.match(propertyLineRegex)).filter(m => m !== null)\<close>, the keys\<close>
  "matchedKeys ls = map the (filter (\<lambda>m. m \<noteq> None) (map propertyLineRegex_match ls))"

definition getPropertiesFromBlockContent :: "block \<Rightarrow> error + obj" where
  "getPropertiesFromBlockContent srcBlock =
     (let lines = split_nl (content srcBlock);
          firstPropertyLine = getFirstPropertyLine lines;
          lastPropertyLine = getLastPropertyLine lines firstPropertyLine;
          keys = matchedKeys (slice lines firstPropertyLine (lastPropertyLine + 1))
      in case properties srcBlock of
           None \<Rightarrow> if keys = [] then Inr (Object_fromEntries []) else Inl TypeError
         | Some props \<Rightarrow> Inr (Object_fromEntries (map (propertyEntry props) keys)))"

section \<open>The property serializer\<close>

text \<open>
  \<^verbatim>\<open>`${key}:: ${value}`\<close> converts the value to a string, which throws for an object whose
  own \<^verbatim>\<open>toString\<close> is not callable; the entries are mapped in order, so the first such
  value ends the call.
\<close>

definition formatEntry :: "string \<times> jsval \<Rightarrow> error + string" where
  "formatEntry e = (case toString (snd e) of Inl err \<Rightarrow> Inl err | Inr s \<Rightarrow> Inr (fst e @ '':: '' @ s))"

definition formatPropertiesString :: "obj \<Rightarrow> error + string" where
  "formatPropertiesString props =
     (case collect (map formatEntry props) of Inl err \<Rightarrow> Inl err | Inr ls \<Rightarrow> Inr (join_nl ls))"

section \<open>The deep merge combinator\<close>

text \<open>
  \<^verbatim>\<open>{ ...v }\<close> for the values the merge spreads: the own properties of an object, nothing
  for \<^verbatim>\<open>null\<close>.
\<close>

fun spread :: "jsval \<Rightarrow> obj" where
  "spread (JObj es) = Object_fromEntries es"
| "spread (JArr xs) = Object_fromEntries (zip (map show_nat [0..<length xs]) xs)"
| "spread (JStr s) = Object_fromEntries (zip (map show_nat [0..<length s]) (map (\<lambda>c. JStr [c]) s))"
| "spread _ = []"

fun isArray :: "jsval \<Rightarrow> bool" where
  "isArray (JArr xs) = True"
| "isArray _ = False"

fun typeof_object :: "jsval \<Rightarrow> bool" where
  \<comment> \<open>\<^verbatim>\<open>typeof v === 'object'\<close>: objects, arrays and \<^verbatim>\<open>null\<close>\<close>
  "typeof_object (JObj es) = True"
| "typeof_object (JArr xs) = True"
| "typeof_object JNull = True"
| "typeof_object _ = False"

fun concat_arrays :: "jsval \<Rightarrow> jsval \<Rightarrow> jsval" where
  \<comment> \<open>\<^verbatim>\<open>[...a, ...b]\<close> of two arrays\<close>
  "concat_arrays (JArr xs) (JArr ys) = JArr (xs @ ys)"
| "concat_arrays a b = b"

text \<open>
  \<open>mergeObjects\<close>, on the own properties of the target. The keys come from
  \<^verbatim>\<open>Object.keys(source)\<close>, so \<^verbatim>\<open>source[key]\<close> is an own read. \<^verbatim>\<open>target[key]\<close> is only
  tested, for being an array and for being of type \<^verbatim>\<open>object\<close>: where the target has no own
  property and inherits a function under the key, both tests fail as they do for
  \<^verbatim>\<open>undefined\<close>, which is what \<open>obj_get\<close> reads. Under the key \<^verbatim>\<open>__proto__\<close> the target
  inherits an object, its prototype; what is assigned there is dropped by \<open>obj_assign\<close>,
  so the own properties of the result do not depend on the read.
\<close>

function mergeObjects :: "obj \<Rightarrow> jsval list \<Rightarrow> obj" where
  "mergeObjects target [] = target"
| "mergeObjects target (source # args) =
     (if \<not> truthy source then target
      else mergeObjects
        (foldl
          (\<lambda>target key.
             obj_assign target key
               (if isArray (js_get source key) then
                  (if isArray (obj_get target key)
                   then concat_arrays (obj_get target key) (js_get source key)
                   else js_get source key)
                else (case js_get source key of
                   JObj s \<Rightarrow>
                     (if typeof_object (obj_get target key) \<and> \<not> isArray (obj_get target key)
                      then JObj (mergeObjects (spread (obj_get target key)) [JObj s])
                      else JObj s)
                 | v \<Rightarrow> v)))
          target (Object_keys source))
        args)"
  by pat_completeness auto
termination
proof (relation "measure (\<lambda>(target, sources). size_list size sources)", goal_cases)
  case 1
  show ?case by simp
next
  case (2 target source args a key s)
  then have got: "js_get source key = JObj s"
    by simp
  have "size (JObj s) < size source"
  proof (cases source)
    case (JObj es)
    with got have "map_of es key = Some (JObj s)"
      by (simp add: obj_get_def split: option.splits)
    then have "(key, JObj s) \<in> set es"
      by (rule map_of_SomeD)
    then have "size (JObj s) < Suc (size_list (size_prod (\<lambda>_. 0) size) es)"
      by (induction es) auto
    with JObj show ?thesis by simp
  next
    case (JArr xs)
    with got have i: "indexValue key < int (length xs)" and x: "xs ! nat (indexValue key) = JObj s"
      and d: "list_all is_digit key"
      by (auto simp: isArrayIndex_def split: if_splits)
    have "list_all is_digit k \<Longrightarrow> 0 \<le> n \<Longrightarrow> 0 \<le> foldl (\<lambda>n c. 10 * n + (of_char c - 48)) n k"
      for k and n :: int
    proof (induction k arbitrary: n)
      case Nil
      then show ?case by simp
    next
      case (Cons c k)
      from Cons.prems have "48 \<le> (of_char c :: nat)"
        by (simp add: is_digit_def Let_def)
      then have "48 \<le> int (of_char c)"
        by linarith
      then have "(48 :: int) \<le> of_char c"
        by (simp add: of_nat_of_char)
      with Cons.prems have "0 \<le> 10 * n + (of_char c - 48)"
        by simp
      with Cons.IH [of "10 * n + (of_char c - 48)"] Cons.prems show ?case
        by simp
    qed
    with d have "0 \<le> indexValue key"
      by (simp add: indexValue_def)
    with i have "nat (indexValue key) < length xs"
      by auto
    with x have "JObj s \<in> set xs"
      by (metis nth_mem)
    then have "size (JObj s) < Suc (size_list size xs)"
      by (induction xs) auto
    with JArr show ?thesis by simp
  qed (use got in \<open>auto split: if_splits\<close>)
  then show ?case by simp
next
  case (3 target source args)
  show ?case by simp
qed

declare mergeObjects.simps [simp del]

text \<open>One round of the \<^verbatim>\<open>for\<close> loop of \<open>mergeObjects\<close>, named for the proofs.\<close>

definition mergeKey :: "jsval \<Rightarrow> obj \<Rightarrow> string \<Rightarrow> obj" where
  "mergeKey source target key =
     obj_assign target key
       (if isArray (js_get source key) then
          (if isArray (obj_get target key)
           then concat_arrays (obj_get target key) (js_get source key)
           else js_get source key)
        else (case js_get source key of
           JObj s \<Rightarrow>
             (if typeof_object (obj_get target key) \<and> \<not> isArray (obj_get target key)
              then JObj (mergeObjects (spread (obj_get target key)) [JObj s])
              else JObj s)
         | v \<Rightarrow> v))"

section \<open>The representation of objects\<close>

text \<open>
  A list stands for an object when no key occurs twice, the array-index keys come first in
  ascending order, and the other keys follow. Every JavaScript object of own data
  properties has exactly one such list, and \<open>obj_set\<close> keeps the form.
\<close>

fun canonical_keys :: "string list \<Rightarrow> bool" where
  "canonical_keys [] = True"
| "canonical_keys (k # ks) =
     (k \<notin> set ks \<and> canonical_keys ks \<and>
      (if isArrayIndex k
       then list_all (\<lambda>q. \<not> isArrayIndex q \<or> indexValue k < indexValue q) ks
       else list_all (\<lambda>q. \<not> isArrayIndex q) ks))"

definition canonical :: "obj \<Rightarrow> bool" where
  "canonical ob = canonical_keys (map fst ob)"

fun wf_val :: "jsval \<Rightarrow> bool" where
  "wf_val (JObj es) = (canonical es \<and> (\<forall>p \<in> set es. wf_val (snd p)))"
| "wf_val (JArr xs) = (\<forall>x \<in> set xs. wf_val x)"
| "wf_val _ = True"

text \<open>
  A value that has no own property \<^verbatim>\<open>__proto__\<close>, at any depth. Such a key exists only in
  an object built by \<^verbatim>\<open>Object.fromEntries\<close>, \<^verbatim>\<open>JSON.parse\<close> or a computed key; merging it
  into a target calls the setter of the prototype instead of adding a key.
\<close>

fun protoFree :: "jsval \<Rightarrow> bool" where
  "protoFree (JObj es) = (\<forall>p \<in> set es. fst p \<noteq> ''__proto__'' \<and> protoFree (snd p))"
| "protoFree (JArr xs) = (\<forall>x \<in> set xs. protoFree x)"
| "protoFree _ = True"

text \<open>
  The combination rule in the words of the specification: an incoming array is appended to
  an existing array and replaces anything else; an incoming map is merged key by key into
  an existing map and replaces anything else; any other incoming value replaces what was
  there.
\<close>

definition spec_combine :: "jsval \<Rightarrow> jsval \<Rightarrow> jsval" where
  "spec_combine existing incoming =
     (case incoming of
        JArr ys \<Rightarrow> (case existing of JArr xs \<Rightarrow> JArr (xs @ ys) | _ \<Rightarrow> JArr ys)
      | JObj i \<Rightarrow> (case existing of JObj e \<Rightarrow> JObj (mergeObjects e [JObj i]) | _ \<Rightarrow> JObj i)
      | v \<Rightarrow> v)"

text \<open>The value one round of the loop of \<open>mergeObjects\<close> stores, named for the proofs.\<close>

definition mergedValue :: "jsval \<Rightarrow> jsval \<Rightarrow> jsval" where
  "mergedValue existing incoming =
     (if isArray incoming then
        (if isArray existing then concat_arrays existing incoming else incoming)
      else (case incoming of
         JObj s \<Rightarrow>
           (if typeof_object existing \<and> \<not> isArray existing
            then JObj (mergeObjects (spread existing) [JObj s])
            else JObj s)
       | v \<Rightarrow> v))"

text \<open>
  The keys the extractor reads, in the order of the text: the first capture group of every
  matching line among the lines that \<open>getPropertiesFromBlockContent\<close> slices out.
\<close>

definition scannedKeys :: "string \<Rightarrow> string list" where
  "scannedKeys txt =
     (let lines = split_nl txt;
          firstPropertyLine = getFirstPropertyLine lines;
          lastPropertyLine = getLastPropertyLine lines firstPropertyLine
      in matchedKeys (slice lines firstPropertyLine (lastPropertyLine + 1)))"

text \<open>
  The scanner and the normalisation in the words of the specification: the property range
  is the unbroken run of property lines that starts at the first property line, a property
  line being a line that the property pattern matches; the raw keys are the keys of the
  lines of the range; and a raw key is normalised to lowercase with the characters that are
  not letters stripped.
\<close>

definition spec_propertyRange :: "string list \<Rightarrow> string list" where
  "spec_propertyRange lines =
     takeWhile propertyLineRegex_test (dropWhile (\<lambda>line. \<not> propertyLineRegex_test line) lines)"

definition spec_keys :: "string \<Rightarrow> string list" where
  "spec_keys txt = matchedKeys (spec_propertyRange (split_nl txt))"

definition spec_normalize :: "string \<Rightarrow> string" where
  "spec_normalize key = filter is_lower_letter (toLowerCase key)"

definition firstOccurrences :: "'a list \<Rightarrow> 'a list" where
  \<comment> \<open>a list without its repetitions, every element at its first place\<close>
  "firstOccurrences ks = rev (remdups (rev ks))"


section \<open>The conversion: waiting for the reference index\<close>





section \<open>The conversion: relocating the children\<close>

text \<open>
  The \<^verbatim>\<open>for\<close> loop of \<open>main\<close> over \<^verbatim>\<open>srcBlock.children\<close>. The host is a parameter: a state
  \<open>'h\<close> and the function \<open>moveBlock\<close>, which answers a call
  \<^verbatim>\<open>moveBlock(child, target, {children: false, before: false})\<close> with the new state and
  whether the promise was fulfilled. The calls made are recorded in order, a move with
  its child, its target and the two options \<^verbatim>\<open>children\<close> and \<^verbatim>\<open>before\<close>.
\<close>

datatype call =
    MoveBlock uuid uuid bool bool
  | ConsoleError string
  | ShowMsg string string

datatype 'h outcome =
    Completed 'h uuid "call list"
  | Returned 'h "call list"

fun moveChildren ::
  "('h \<Rightarrow> uuid \<Rightarrow> uuid \<Rightarrow> bool \<times> 'h) \<Rightarrow> uuid list \<Rightarrow> uuid \<Rightarrow> 'h \<Rightarrow> call list \<Rightarrow> 'h outcome" where
  "moveChildren moveBlock [] targetUUID h calls = Completed h targetUUID calls"
| "moveChildren moveBlock (child # rest) targetUUID h calls =
     (case moveBlock h child targetUUID of
        (True, h') \<Rightarrow>
          moveChildren moveBlock rest child h' (calls @ [MoveBlock child targetUUID False False])
      | (False, h') \<Rightarrow>
          Returned h'
            (calls @ [MoveBlock child targetUUID False False, ConsoleError ''moveBlock error'',
                      ShowMsg ''move block error'' ''error'']))"

abbreviation moveCall :: "uuid \<Rightarrow> uuid \<Rightarrow> call" where
  "moveCall child target \<equiv> MoveBlock child target False False"

text \<open>
  \<open>main\<close> from \<^verbatim>\<open>if (targetBlock)\<close> on: the loop, and after a loop that ran to its end the
  statements that follow it (removing the empty target block, the page tags, rewriting the
  source block, leaving the editing mode, the redirect), passed in as \<open>afterLoop\<close>.
\<close>

definition relocate ::
  "('h \<Rightarrow> uuid \<Rightarrow> uuid \<Rightarrow> bool \<times> 'h) \<Rightarrow> ('h \<Rightarrow> call list \<Rightarrow> 'h \<times> call list)
     \<Rightarrow> block \<Rightarrow> block \<Rightarrow> 'h \<Rightarrow> 'h \<times> call list" where
  "relocate moveBlock afterLoop srcBlock targetBlock h =
     (case moveChildren moveBlock (children srcBlock) (uuid targetBlock) h [] of
        Completed h' cursor calls \<Rightarrow> afterLoop h' calls
      | Returned h' calls \<Rightarrow> (h', calls))"

text \<open>
  Modelled from the spec: the host's \<open>move(childId, anchorId, {asChild:false, before:false})\<close>,
  which is not part of the repository. A page is the list of its top-level blocks; the
  call takes the child out of the list if it is there and puts it right after the anchor,
  and fails when the anchor is not on the page.
\<close>

fun insertAfter :: "uuid \<Rightarrow> uuid \<Rightarrow> uuid list \<Rightarrow> uuid list" where
  "insertAfter anchor child [] = []"
| "insertAfter anchor child (x # xs) =
     (if x = anchor then x # child # xs else x # insertAfter anchor child xs)"

definition pageMove :: "uuid list \<Rightarrow> uuid \<Rightarrow> uuid \<Rightarrow> bool \<times> uuid list" where
  "pageMove page child anchor =
     (if anchor \<in> set page \<and> child \<noteq> anchor
      then (True, insertAfter anchor child (removeAll child page))
      else (False, page))"

section \<open>Properties of the scanner\<close>

lemma findIndex_takeWhile:
  "findIndex P xs = (if list_ex P xs then int (length (takeWhile (\<lambda>x. \<not> P x) xs)) else - 1)"
  by (induction xs) (auto simp: Let_def)

lemma takeWhile_all_length:
  "\<not> list_ex P xs \<Longrightarrow> takeWhile (\<lambda>x. \<not> P x) xs = xs"
  by (induction xs) auto

lemma getFirstPropertyLine_takeWhile:
  "getFirstPropertyLine lines = int (length (takeWhile (\<lambda>l. \<not> propertyLineRegex_test l) lines))"
  by (simp add: getFirstPropertyLine_def findIndex_takeWhile takeWhile_all_length)

lemma slice_zero: "0 \<le> n \<Longrightarrow> slice xs 0 n = take (nat n) xs"
  by (auto simp: slice_def slice_bound_def min_def)

lemma take_length_takeWhile: "take (length (takeWhile P xs)) xs = takeWhile P xs"
  by (induction xs) auto

lemma drop_length_takeWhile: "drop (length (takeWhile P xs)) xs = dropWhile P xs"
  by (induction xs) auto

lemma removeProperties_takeWhile:
  "removeProperties lines = takeWhile (\<lambda>l. \<not> propertyLineRegex_test l) lines"
  by (simp add: removeProperties_def getFirstPropertyLine_takeWhile slice_zero take_length_takeWhile)

lemmas scanner_eval =
  getFirstPropertyLine_def getLastPropertyLine_def removeProperties_def
  slice_from_def slice_def slice_bound_def propertyLineRegex_test_def
  propertyLineRegex_match_def propertyLineRegex_tail_def
  is_space_def is_word_def is_dot_def is_line_terminator_def

text \<open>
  C10. \<open>removeProperties\<close> returns exactly the lines before the first property line:
  it is the longest prefix of lines that are not property lines, its length is
  \<open>getFirstPropertyLine\<close>, everything from that index on is dropped, and unless nothing
  was dropped the first dropped line is a property line. The text written back to the
  source block, \<open>removeProperties(allLines).join("\n")\<close>, is therefore the join of that
  prefix, whatever follows the property block.
\<close>

theorem removeProperties_prefix:
  "removeProperties lines = takeWhile (\<lambda>l. \<not> propertyLineRegex_test l) lines
   \<and> length (removeProperties lines) = nat (getFirstPropertyLine lines)
   \<and> removeProperties lines @ drop (nat (getFirstPropertyLine lines)) lines = lines
   \<and> (removeProperties lines = lines
        \<or> propertyLineRegex_test (lines ! nat (getFirstPropertyLine lines)))
   \<and> srcBlockRewrite txt =
        join_nl (takeWhile (\<lambda>l. \<not> propertyLineRegex_test l) (split_nl txt))"
proof -
  let ?P = "\<lambda>l. \<not> propertyLineRegex_test l"
  have r: "removeProperties lines = takeWhile ?P lines"
    by (rule removeProperties_takeWhile)
  have f: "nat (getFirstPropertyLine lines) = length (takeWhile ?P lines)"
    by (simp add: getFirstPropertyLine_takeWhile)
  have d: "takeWhile ?P lines @ drop (length (takeWhile ?P lines)) lines = lines"
    by (simp add: drop_length_takeWhile)
  have e: "takeWhile ?P lines = lines \<or> propertyLineRegex_test (lines ! length (takeWhile ?P lines))"
  proof (cases "length (takeWhile ?P lines) < length lines")
    case True
    then show ?thesis using nth_length_takeWhile [of ?P lines] by simp
  next
    case False
    then have "length (takeWhile ?P lines) = length lines"
      using length_takeWhile_le [of ?P lines] by simp
    then have "takeWhile ?P lines = lines"
      by (metis take_all_iff order_refl take_length_takeWhile)
    then show ?thesis by simp
  qed
  have w: "srcBlockRewrite txt = join_nl (takeWhile ?P (split_nl txt))"
    by (simp add: srcBlockRewrite_def removeProperties_takeWhile)
  show ?thesis using r f d e w by simp
qed

text \<open>
  The block \<open>Title / a:: 1 / (blank) / trailing text\<close>: the rewrite keeps \<open>Title\<close> only,
  so the trailing text after the interruption is deleted with the property.
\<close>

theorem removeProperties_prefix_witness:
  "removeProperties [''Title'', ''a:: 1'', '''', ''trailing text''] = [''Title'']
   \<and> srcBlockRewrite ''Title\<newline>a:: 1\<newline>\<newline>trailing text'' = ''Title''"
proof -
  have t: "takeWhile (\<lambda>l. \<not> propertyLineRegex_test l) [''Title'', ''a:: 1'', '''', ''trailing text'']
           = [''Title'']"
    by (simp add: scanner_eval)
  have s: "split_nl ''Title\<newline>a:: 1\<newline>\<newline>trailing text'' = [''Title'', ''a:: 1'', '''', ''trailing text'']"
    by simp
  show ?thesis
    using removeProperties_prefix [of "[''Title'', ''a:: 1'', '''', ''trailing text'']"
        "''Title\<newline>a:: 1\<newline>\<newline>trailing text''"]
    unfolding s t by simp
qed

lemma slice_from_drop: "0 \<le> first \<Longrightarrow> slice_from xs first = drop (nat first) xs"
  by (auto simp: slice_from_def slice_def slice_bound_def min_def)

lemma list_ex_not_takeWhile: "list_ex (\<lambda>x. \<not> P x) xs \<longleftrightarrow> length (takeWhile P xs) \<noteq> length xs"
proof (induction xs)
  case Nil
  then show ?case by simp
next
  case (Cons x xs)
  have "length (takeWhile P xs) \<le> length xs"
    by (rule length_takeWhile_le)
  with Cons show ?case
    by auto
qed

text \<open>
  What \<open>getLastPropertyLine\<close> computes from any start: the length of the run of property
  lines from there, less one, and the last index of the list when the run reaches the end.
  The start is added nowhere, so the answer is the index of the end of the run only for a
  run that starts at index 0 or reaches the end of the list.
\<close>

lemma getLastPropertyLine_run:
  assumes "0 \<le> first"
  shows "getLastPropertyLine lines first =
           (if length (takeWhile propertyLineRegex_test (drop (nat first) lines))
                = length (drop (nat first) lines)
            then int (length lines) - 1
            else int (length (takeWhile propertyLineRegex_test (drop (nat first) lines))) - 1)"
proof -
  let ?xs = "drop (nat first) lines"
  have "findIndex (\<lambda>line. \<not> propertyLineRegex_test line) ?xs =
      (if list_ex (\<lambda>line. \<not> propertyLineRegex_test line) ?xs
       then int (length (takeWhile (\<lambda>x. \<not> \<not> propertyLineRegex_test x) ?xs)) else - 1)"
    by (rule findIndex_takeWhile)
  then have "findIndex (\<lambda>line. \<not> propertyLineRegex_test line) ?xs =
      (if length (takeWhile propertyLineRegex_test ?xs) \<noteq> length ?xs
       then int (length (takeWhile propertyLineRegex_test ?xs)) else - 1)"
    by (simp add: list_ex_not_takeWhile)
  with assms show ?thesis
    by (simp add: getLastPropertyLine_def slice_from_drop)
qed

text \<open>
  C1. The run of property lines of \<open>Title / a:: 1 / b:: 2 / (blank)\<close> starts at index 1
  and ends at index 2, the blank line at index 3 breaking it. \<open>getLastPropertyLine\<close>
  answers 1: the index it finds is counted in the slice that starts at the first property
  line, and the offset of the slice is not added back.
\<close>

theorem getLastPropertyLine_offset_lost:
  "getFirstPropertyLine [''Title'', ''a:: 1'', ''b:: 2'', ''''] = 1
   \<and> propertyLineRegex_test ([''Title'', ''a:: 1'', ''b:: 2'', ''''] ! 1)
   \<and> propertyLineRegex_test ([''Title'', ''a:: 1'', ''b:: 2'', ''''] ! 2)
   \<and> \<not> propertyLineRegex_test ([''Title'', ''a:: 1'', ''b:: 2'', ''''] ! 3)
   \<and> getLastPropertyLine [''Title'', ''a:: 1'', ''b:: 2'', ''''] 1 = 1"
  by (simp add: scanner_eval)


section \<open>Properties of the object representation\<close>

text \<open>An array index is the decimal numeral of its number, so the number determines it.\<close>

lemma indexValue_snoc: "indexValue (k @ [c]) = 10 * indexValue k + (of_char c - 48)"
  by (simp add: indexValue_def)

lemma is_digit_int: "is_digit c \<Longrightarrow> 48 \<le> (of_char c :: int) \<and> (of_char c :: int) \<le> 57"
proof -
  assume "is_digit c"
  then have "48 \<le> (of_char c :: nat) \<and> (of_char c :: nat) \<le> 57"
    by (simp add: is_digit_def Let_def)
  then have "48 \<le> int (of_char c) \<and> int (of_char c) \<le> 57"
    by linarith
  then show ?thesis
    by (simp add: of_nat_of_char)
qed

lemma digit_char_of_digit:
  assumes "is_digit c"
  shows "digit_char (nat ((of_char c :: int) - 48)) = c"
proof -
  from assms have b: "48 \<le> (of_char c :: nat)"
    by (simp add: is_digit_def Let_def)
  have "(of_char c :: int) = int (of_char c)"
    by (simp add: of_nat_of_char)
  then have "nat ((of_char c :: int) - 48) = (of_char c :: nat) - 48"
    by simp
  with b have "48 + nat ((of_char c :: int) - 48) = (of_char c :: nat)"
    by simp
  then show ?thesis
    by (simp add: digit_char_def)
qed

lemma indexValue_nonneg: "list_all is_digit k \<Longrightarrow> 0 \<le> indexValue k"
proof (induction k rule: rev_induct)
  case Nil
  then show ?case by (simp add: indexValue_def)
next
  case (snoc c k)
  then have "0 \<le> indexValue k" and "is_digit c"
    by simp_all
  with is_digit_int [of c] show ?case
    by (simp add: indexValue_snoc)
qed

lemma indexValue_pos:
  "list_all is_digit k \<Longrightarrow> k \<noteq> [] \<Longrightarrow> hd k \<noteq> CHR ''0'' \<Longrightarrow> 0 < indexValue k"
proof (induction k rule: rev_induct)
  case Nil
  then show ?case by simp
next
  case (snoc c k)
  then have dc: "is_digit c" and dk: "list_all is_digit k"
    by simp_all
  show ?case
  proof (cases "k = []")
    case True
    with snoc.prems have "c \<noteq> CHR ''0''"
      by simp
    then have "(of_char c :: int) \<noteq> of_char (CHR ''0'')"
      by (simp only: of_char_eq_iff not_False_eq_True)
    then have "(of_char c :: int) \<noteq> 48"
      by simp
    with is_digit_int [OF dc] True show ?thesis
      by (simp add: indexValue_def)
  next
    case False
    with snoc.prems have "hd k \<noteq> CHR ''0''"
      by simp
    with snoc.IH dk False have "0 < indexValue k"
      by simp
    with is_digit_int [OF dc] show ?thesis
      by (simp add: indexValue_snoc)
  qed
qed

lemma show_nat_snoc: "d < 10 \<Longrightarrow> 0 < n \<Longrightarrow> show_nat (10 * n + d) = show_nat n @ [digit_char d]"
  by (subst show_nat.simps) simp

lemma show_nat_indexValue:
  "list_all is_digit k \<Longrightarrow> k \<noteq> [] \<Longrightarrow> k = ''0'' \<or> hd k \<noteq> CHR ''0''
   \<Longrightarrow> show_nat (nat (indexValue k)) = k"
proof (induction k rule: rev_induct)
  case Nil
  then show ?case by simp
next
  case (snoc c k)
  then have dc: "is_digit c" and dk: "list_all is_digit k"
    by simp_all
  let ?d = "nat ((of_char c :: int) - 48)"
  from is_digit_int [OF dc] have d: "?d < 10"
    by linarith
  from is_digit_int [OF dc] have dn: "int ?d = of_char c - 48"
    by linarith
  show ?case
  proof (cases "k = []")
    case True
    with d have "show_nat (nat (indexValue [c])) = [digit_char ?d]"
      by (subst show_nat.simps) (simp add: indexValue_def)
    with True dc show ?thesis
      by (simp add: digit_char_of_digit)
  next
    case False
    with snoc.prems have h: "hd k \<noteq> CHR ''0''"
      by (cases k) auto
    with snoc.IH dk False have ih: "show_nat (nat (indexValue k)) = k"
      by simp
    from dk False h have pos: "0 < indexValue k"
      by (rule indexValue_pos)
    then have "nat (10 * indexValue k + (of_char c - 48)) = 10 * nat (indexValue k) + ?d"
      using is_digit_int [OF dc] by linarith
    then have v: "nat (indexValue (k @ [c])) = 10 * nat (indexValue k) + ?d"
      by (simp only: indexValue_snoc)
    from pos have "0 < nat (indexValue k)"
      by simp
    with d have "show_nat (10 * nat (indexValue k) + ?d) = show_nat (nat (indexValue k)) @ [digit_char ?d]"
      by (rule show_nat_snoc)
    also have "\<dots> = k @ [c]"
      unfolding ih digit_char_of_digit [OF dc] ..
    finally show ?thesis
      unfolding v .
  qed
qed

lemma indexValue_inject:
  assumes "isArrayIndex a" and "isArrayIndex b" and "indexValue a = indexValue b"
  shows "a = b"
proof -
  have r: "show_nat (nat (indexValue k)) = k" if "isArrayIndex k" for k
  proof -
    from that have "k \<noteq> [] \<and> list_all is_digit k \<and> (k = ''0'' \<or> hd k \<noteq> CHR ''0'')
        \<and> indexValue k < 4294967295"
      unfolding isArrayIndex_def .
    then show ?thesis
      by (elim conjE) (rule show_nat_indexValue, assumption+)
  qed
  from assms(3) have "show_nat (nat (indexValue a)) = show_nat (nat (indexValue b))"
    by (rule arg_cong)
  then show ?thesis
    unfolding r [OF assms(1)] r [OF assms(2)] .
qed

lemma map_of_updateKey: "map_of (updateKey k v ob) = (map_of ob)(k \<mapsto> v)"
  by (induction ob) (auto simp: fun_eq_iff)

lemma map_of_insertIndex:
  "k \<notin> set (map fst ob) \<Longrightarrow> map_of (insertIndex k v ob) = (map_of ob)(k \<mapsto> v)"
  by (induction ob) (auto simp: fun_eq_iff)

lemma map_of_None_keys: "(map_of ob k = None) = (k \<notin> set (map fst ob))"
  by (simp add: map_of_eq_None_iff)

lemma map_of_obj_set: "map_of (obj_set ob k v) = (map_of ob)(k \<mapsto> v)"
  by (simp add: obj_set_def map_of_updateKey map_of_insertIndex map_of_None_keys)

lemma obj_get_obj_set: "obj_get (obj_set ob k v) k' = (if k' = k then v else obj_get ob k')"
  by (simp add: obj_get_def map_of_obj_set)

lemma keys_updateKey:
  "map fst (updateKey k v ob) = (if k \<in> set (map fst ob) then map fst ob else map fst ob @ [k])"
  by (induction ob) auto

lemma canonical_keys_snoc:
  "canonical_keys ks \<Longrightarrow> k \<notin> set ks \<Longrightarrow> \<not> isArrayIndex k \<Longrightarrow> canonical_keys (ks @ [k])"
  by (induction ks) (auto simp: list_all_iff)

lemma keys_insertIndex:
  "set (map fst (insertIndex k v ob)) = insert k (set (map fst ob))"
  by (induction ob) auto

lemma canonical_insertIndex:
  "canonical_keys (map fst ob) \<Longrightarrow> k \<notin> set (map fst ob) \<Longrightarrow> isArrayIndex k
   \<Longrightarrow> canonical_keys (map fst (insertIndex k v ob))"
proof (induction ob)
  case Nil
  then show ?case by simp
next
  case (Cons p ob)
  have s: "set (map fst (insertIndex k v ob)) = insert k (set (map fst ob))"
    by (rule keys_insertIndex)
  show ?case
  proof (cases "isArrayIndex (fst p) \<and> indexValue (fst p) < indexValue k")
    case True
    with s Cons show ?thesis
      by (auto simp: list_all_iff)
  next
    case False
    have "indexValue k < indexValue (fst p)" if "isArrayIndex (fst p)"
    proof -
      from Cons.prems(2) have "fst p \<noteq> k"
        by auto
      with that Cons.prems(3) have "indexValue (fst p) \<noteq> indexValue k"
        using indexValue_inject [of "fst p" k] by blast
      with that False show ?thesis
        by simp
    qed
    with False Cons.prems show ?thesis
      by (auto simp: list_all_iff split: if_splits)
  qed
qed

lemma canonical_obj_set:
  assumes "canonical ob"
  shows "canonical (obj_set ob k v)"
proof (cases "k \<in> set (map fst ob)")
  case True
  then have "map fst (obj_set ob k v) = map fst ob"
    by (simp add: obj_set_def keys_updateKey map_of_None_keys)
  with assms show ?thesis
    by (simp add: canonical_def)
next
  case False
  show ?thesis
  proof (cases "isArrayIndex k")
    case True
    with False have "obj_set ob k v = insertIndex k v ob"
      by (simp add: obj_set_def map_of_None_keys)
    with assms False True show ?thesis
      by (simp add: canonical_def canonical_insertIndex)
  next
    case nonindex: False
    with False have "map fst (obj_set ob k v) = map fst ob @ [k]"
      by (simp add: obj_set_def keys_updateKey)
    with assms False nonindex show ?thesis
      by (simp add: canonical_def canonical_keys_snoc)
  qed
qed

lemma updateKey_fresh: "k \<notin> set (map fst ob) \<Longrightarrow> updateKey k v ob = ob @ [(k, v)]"
  by (induction ob) auto

lemma insertIndex_last:
  "list_all (\<lambda>p. isArrayIndex (fst p) \<and> indexValue (fst p) < indexValue k) ob
   \<Longrightarrow> insertIndex k v ob = ob @ [(k, v)]"
  by (induction ob) auto

lemma canonical_keys_before_index:
  "canonical_keys (ks @ k # rest) \<Longrightarrow> isArrayIndex k
   \<Longrightarrow> list_all (\<lambda>q. isArrayIndex q \<and> indexValue q < indexValue k) ks"
  by (induction ks) (auto simp: list_all_iff split: if_splits)

lemma canonical_keys_prefix: "canonical_keys (ks @ rest) \<Longrightarrow> canonical_keys ks"
  by (induction ks) (auto simp: list_all_iff split: if_splits)

lemma canonical_keys_distinct: "canonical_keys ks \<Longrightarrow> distinct ks"
  by (induction ks) auto

lemma obj_set_next:
  assumes "canonical (acc @ (k, v) # es)"
  shows "obj_set acc k v = acc @ [(k, v)]"
proof -
  from assms have c: "canonical_keys (map fst acc @ k # map fst es)"
    by (simp add: canonical_def)
  then have "distinct (map fst acc @ k # map fst es)"
    by (rule canonical_keys_distinct)
  then have fresh: "k \<notin> set (map fst acc)"
    by auto
  show ?thesis
  proof (cases "isArrayIndex k")
    case True
    with c have "list_all (\<lambda>q. isArrayIndex q \<and> indexValue q < indexValue k) (map fst acc)"
      by (rule canonical_keys_before_index)
    then have "list_all (\<lambda>p. isArrayIndex (fst p) \<and> indexValue (fst p) < indexValue k) acc"
      by (simp add: list_all_iff)
    with True fresh show ?thesis
      by (simp add: obj_set_def map_of_None_keys insertIndex_last)
  next
    case False
    with fresh show ?thesis
      by (simp add: obj_set_def updateKey_fresh)
  qed
qed

lemma foldl_obj_set_canonical:
  "canonical (acc @ es) \<Longrightarrow> foldl (\<lambda>ob e. obj_set ob (fst e) (snd e)) acc es = acc @ es"
proof (induction es arbitrary: acc)
  case Nil
  then show ?case by simp
next
  case (Cons e es)
  from Cons.prems have "obj_set acc (fst e) (snd e) = acc @ [e]"
    using obj_set_next [of acc "fst e" "snd e" es] by simp
  with Cons.IH [of "acc @ [e]"] Cons.prems show ?case
    by simp
qed

lemma Object_fromEntries_canonical: "canonical ob \<Longrightarrow> Object_fromEntries ob = ob"
  using foldl_obj_set_canonical [of "[]" ob] by (simp add: Object_fromEntries_def)

lemma canonical_Object_fromEntries: "canonical (Object_fromEntries es)"
proof -
  have "canonical acc \<Longrightarrow> canonical (foldl (\<lambda>ob e. obj_set ob (fst e) (snd e)) acc es)" for acc
    by (induction es arbitrary: acc) (simp_all add: canonical_obj_set)
  then show ?thesis
    by (simp add: Object_fromEntries_def canonical_def)
qed

section \<open>Properties of the deep merge\<close>

lemma mergeObjects_Nil: "mergeObjects target [] = target"
  by (simp add: mergeObjects.simps)

lemma mergeObjects_Cons:
  "mergeObjects target (source # args) =
     (if \<not> truthy source then target
      else mergeObjects (foldl (mergeKey source) target (Object_keys source)) args)"
  unfolding mergeKey_def by (subst mergeObjects.simps) (rule refl)

lemma mergeObjects_foldl:
  "mergeObjects target (map JObj srcs) = foldl (\<lambda>acc s. mergeObjects acc [JObj s]) target srcs"
  by (induction srcs arbitrary: target) (simp_all add: mergeObjects_Nil mergeObjects_Cons)

text \<open>
  C4. With no trailing source \<open>mergeObjects\<close> returns its target as it is, and merging
  several objects at once is the left-to-right fold of the two-argument merges: for all
  property mappings \<open>A\<close> and \<open>B\<close>, \<open>merge(merge({}, A), B) = merge({}, A, B)\<close>, from the
  empty object and from any other target, and likewise for any number of sources.
\<close>

theorem mergeObjects_fold:
  "mergeObjects target [] = target
   \<and> mergeObjects (mergeObjects [] [JObj A]) [JObj B] = mergeObjects [] [JObj A, JObj B]
   \<and> mergeObjects (mergeObjects target [JObj A]) [JObj B] = mergeObjects target [JObj A, JObj B]
   \<and> mergeObjects target (map JObj srcs) = foldl (\<lambda>acc s. mergeObjects acc [JObj s]) target srcs"
  by (simp add: mergeObjects_Nil mergeObjects_Cons mergeObjects_foldl)

lemma mergeKey_assign:
  "mergeKey source target key = obj_assign target key (mergedValue (obj_get target key) (js_get source key))"
  by (simp add: mergeKey_def mergedValue_def)

lemma obj_assign_obj_set: "key \<noteq> ''__proto__'' \<Longrightarrow> obj_assign ob key v = obj_set ob key v"
  by (simp add: obj_assign_def)

lemma mergeKey_mergedValue:
  "key \<noteq> ''__proto__'' \<Longrightarrow>
   mergeKey source target key = obj_set target key (mergedValue (obj_get target key) (js_get source key))"
  by (simp add: mergeKey_assign obj_assign_obj_set)

lemma canonical_obj_assign: "canonical ob \<Longrightarrow> canonical (obj_assign ob k v)"
  by (simp add: obj_assign_def canonical_obj_set)

lemma mergedValue_undefined: "mergedValue JUndefined v = v"
  by (cases v) (simp_all add: mergedValue_def)

lemma mergeObjects_single:
  "mergeObjects target [JObj source] = foldl (mergeKey (JObj source)) target (map fst source)"
  by (simp add: mergeObjects_Cons mergeObjects_Nil)

lemma obj_get_absent: "k \<notin> set (map fst ob) \<Longrightarrow> obj_get ob k = JUndefined"
proof -
  assume "k \<notin> set (map fst ob)"
  then have "map_of ob k = None"
    by (simp add: map_of_None_keys)
  then show ?thesis
    by (simp add: obj_get_def)
qed

lemma foldl_mergeKey_fresh:
  "canonical (acc @ es) \<Longrightarrow> \<forall>e \<in> set es. js_get src (fst e) = snd e \<and> fst e \<noteq> ''__proto__''
   \<Longrightarrow> foldl (mergeKey src) acc (map fst es) = acc @ es"
proof (induction es arbitrary: acc)
  case Nil
  then show ?case by simp
next
  case (Cons e es)
  from Cons.prems(1) have "distinct (map fst (acc @ e # es))"
    unfolding canonical_def by (rule canonical_keys_distinct)
  then have "fst e \<notin> set (map fst acc)"
    by auto
  then have "obj_get acc (fst e) = JUndefined"
    by (rule obj_get_absent)
  moreover from Cons.prems(2) have "js_get src (fst e) = snd e" and "fst e \<noteq> ''__proto__''"
    by simp_all
  ultimately have "mergeKey src acc (fst e) = obj_set acc (fst e) (snd e)"
    by (simp add: mergeKey_mergedValue mergedValue_undefined)
  also from Cons.prems(1) have "\<dots> = acc @ [e]"
    using obj_set_next [of acc "fst e" "snd e" es] by simp
  finally have step: "mergeKey src acc (fst e) = acc @ [e]" .
  from Cons.IH [of "acc @ [e]"] Cons.prems have "foldl (mergeKey src) (acc @ [e]) (map fst es) = (acc @ [e]) @ es"
    by simp
  with step show ?case
    by simp
qed

lemma mergeObjects_into_empty:
  assumes "canonical i" and "\<forall>e \<in> set i. fst e \<noteq> ''__proto__''"
  shows "mergeObjects [] [JObj i] = i"
proof -
  from assms(1) have "distinct (map fst i)"
    unfolding canonical_def by (rule canonical_keys_distinct)
  then have "\<forall>e \<in> set i. js_get (JObj i) (fst e) = snd e"
    by (auto simp: obj_get_def)
  with assms(2) have "\<forall>e \<in> set i. js_get (JObj i) (fst e) = snd e \<and> fst e \<noteq> ''__proto__''"
    by simp
  with assms(1) show ?thesis
    using foldl_mergeKey_fresh [of "[]" i "JObj i"] by (simp add: mergeObjects_single)
qed

lemma mergedValue_spec:
  assumes "wf_val existing" and "wf_val incoming" and "protoFree incoming"
  shows "mergedValue existing incoming = spec_combine existing incoming"
proof (cases incoming)
  case (JArr ys)
  then show ?thesis
    by (cases existing) (simp_all add: mergedValue_def spec_combine_def)
next
  case (JObj i)
  with assms have ci: "canonical i" and pf: "\<forall>e \<in> set i. fst e \<noteq> ''__proto__''"
    by simp_all
  show ?thesis
  proof (cases existing)
    case (JObj e)
    with assms have "canonical e"
      by simp
    then have "spread existing = e"
      using JObj by (simp add: Object_fromEntries_canonical)
    with JObj \<open>incoming = JObj i\<close> show ?thesis
      by (simp add: mergedValue_def spec_combine_def)
  next
    case JNull
    with \<open>incoming = JObj i\<close> ci pf show ?thesis
      by (simp add: mergedValue_def spec_combine_def mergeObjects_into_empty)
  qed (use \<open>incoming = JObj i\<close> in \<open>simp_all add: mergedValue_def spec_combine_def\<close>)
qed (simp_all add: mergedValue_def spec_combine_def)

lemma map_of_mergeKey:
  "k \<noteq> ''__proto__'' \<Longrightarrow>
   map_of (mergeKey src t k) = (map_of t)(k \<mapsto> mergedValue (obj_get t k) (js_get src k))"
  by (simp add: mergeKey_mergedValue map_of_obj_set)

lemma map_of_foldl_mergeKey:
  "distinct ks \<Longrightarrow> ''__proto__'' \<notin> set ks \<Longrightarrow>
   map_of (foldl (mergeKey src) t ks) k =
     (if k \<in> set ks then Some (mergedValue (obj_get t k) (js_get src k)) else map_of t k)"
proof (induction ks arbitrary: t)
  case Nil
  then show ?case by simp
next
  case (Cons a ks)
  from Cons.prems have "distinct ks" and "a \<notin> set ks" and a: "a \<noteq> ''__proto__''"
    and ks: "''__proto__'' \<notin> set ks"
    by auto
  have g: "obj_get (mergeKey src t a) k = obj_get t k" if "k \<noteq> a"
    using that a by (simp add: obj_get_def map_of_mergeKey)
  show ?case
  proof (cases "k = a")
    case True
    with \<open>a \<notin> set ks\<close> \<open>distinct ks\<close> ks a Cons.IH [of "mergeKey src t a"] show ?thesis
      by (simp add: map_of_mergeKey)
  next
    case False
    with \<open>distinct ks\<close> ks a Cons.IH [of "mergeKey src t a"] g show ?thesis
      by (simp add: map_of_mergeKey)
  qed
qed

lemma canonical_foldl_mergeKey: "canonical t \<Longrightarrow> canonical (foldl (mergeKey src) t ks)"
  by (induction ks arbitrary: t) (simp_all add: mergeKey_assign canonical_obj_assign)

lemma wf_val_obj_get: "wf_val (JObj ob) \<Longrightarrow> wf_val (obj_get ob k)"
proof (cases "map_of ob k")
  case None
  then show ?thesis by (simp add: obj_get_def)
next
  case (Some v)
  then have "(k, v) \<in> set ob"
    by (rule map_of_SomeD)
  moreover assume "wf_val (JObj ob)"
  ultimately have "wf_val v"
    by auto
  with Some show ?thesis by (simp add: obj_get_def)
qed

lemma spec_combine_undefined: "spec_combine JUndefined v = v"
  by (cases v) (simp_all add: spec_combine_def)

lemma protoFree_keys: "protoFree (JObj es) \<Longrightarrow> ''__proto__'' \<notin> set (map fst es)"
  by auto

lemma protoFree_obj_get: "protoFree (JObj ob) \<Longrightarrow> protoFree (obj_get ob k)"
proof (cases "map_of ob k")
  case None
  then show ?thesis by (simp add: obj_get_def)
next
  case (Some v)
  then have "(k, v) \<in> set ob"
    by (rule map_of_SomeD)
  moreover assume "protoFree (JObj ob)"
  ultimately have "protoFree v"
    by auto
  with Some show ?thesis by (simp add: obj_get_def)
qed

text \<open>
  C3. For an accumulator and a source that are objects, the source holding no key
  \<^verbatim>\<open>__proto__\<close> at any depth, \<open>mergeObjects\<close> gives every key of the source the combination
  of the value the accumulator had (\<^verbatim>\<open>undefined\<close> when it had none) with the incoming
  value: an incoming array is appended to an existing array and replaces anything else, an
  incoming map is merged key by key, by the same function, into an existing map and
  replaces anything else, and any other incoming value replaces what was there. A key of
  the accumulator alone keeps its value, a key of the source alone is added with the
  source's value, and the result is again an object. In particular
  \<open>merge({a:[1]}, {a:[2]}) = {a:[1,2]}\<close>, \<open>merge({a:{x:1}}, {a:{y:2}}) = {a:{x:1,y:2}}\<close>
  and \<open>merge({a:1}, {a:"x"}) = {a:"x"}\<close>.
\<close>

theorem mergeObjects_per_key:
  assumes "wf_val (JObj target)" and "wf_val (JObj source)" and "protoFree (JObj source)"
  shows "map_of (mergeObjects target [JObj source]) k =
           (case map_of source k of
              None \<Rightarrow> map_of target k
            | Some incoming \<Rightarrow> Some (spec_combine (obj_get target k) incoming))
         \<and> (map_of target k = None \<longrightarrow> map_of (mergeObjects target [JObj source]) k = map_of source k)
         \<and> canonical (mergeObjects target [JObj source])
         \<and> mergeObjects [(''a'', JArr [JNum ''1''])] [JObj [(''a'', JArr [JNum ''2''])]]
             = [(''a'', JArr [JNum ''1'', JNum ''2''])]
         \<and> mergeObjects [(''a'', JObj [(''x'', JNum ''1'')])] [JObj [(''a'', JObj [(''y'', JNum ''2'')])]]
             = [(''a'', JObj [(''x'', JNum ''1''), (''y'', JNum ''2'')])]
         \<and> mergeObjects [(''a'', JNum ''1'')] [JObj [(''a'', JStr ''x'')]] = [(''a'', JStr ''x'')]"
proof -
  from assms(2) have d: "distinct (map fst source)"
    by (simp add: canonical_def canonical_keys_distinct)
  from assms(3) have p: "''__proto__'' \<notin> set (map fst source)"
    by (rule protoFree_keys)
  have rule: "map_of (mergeObjects target [JObj source]) k =
           (case map_of source k of
              None \<Rightarrow> map_of target k
            | Some incoming \<Rightarrow> Some (spec_combine (obj_get target k) incoming))"
  proof (cases "map_of source k")
    case None
    then have "k \<notin> set (map fst source)"
      by (simp add: map_of_None_keys)
    with d p None show ?thesis
      by (simp add: mergeObjects_single map_of_foldl_mergeKey)
  next
    case (Some incoming)
    then have m: "k \<in> set (map fst source)"
      by (metis map_of_None_keys option.distinct(1))
    from Some have g: "js_get (JObj source) k = incoming"
      by (simp add: obj_get_def)
    from assms(2) have "wf_val (obj_get source k)"
      by (rule wf_val_obj_get)
    with Some have wi: "wf_val incoming"
      by (simp add: obj_get_def)
    from assms(3) have "protoFree (obj_get source k)"
      by (rule protoFree_obj_get)
    with Some have pi: "protoFree incoming"
      by (simp add: obj_get_def)
    from assms(1) have we: "wf_val (obj_get target k)"
      by (rule wf_val_obj_get)
    from we wi pi have "mergedValue (obj_get target k) incoming = spec_combine (obj_get target k) incoming"
      by (rule mergedValue_spec)
    with d p m g Some show ?thesis
      by (simp add: mergeObjects_single map_of_foldl_mergeKey)
  qed
  have added: "map_of (mergeObjects target [JObj source]) k = map_of source k"
    if "map_of target k = None"
    using that rule by (simp add: obj_get_def spec_combine_undefined split: option.splits)
  from assms(1) have c: "canonical (mergeObjects target [JObj source])"
    by (simp add: mergeObjects_single canonical_foldl_mergeKey)
  have e1: "mergeObjects [(''a'', JArr [JNum ''1''])] [JObj [(''a'', JArr [JNum ''2''])]]
             = [(''a'', JArr [JNum ''1'', JNum ''2''])]"
    by code_simp
  have e2: "mergeObjects [(''a'', JObj [(''x'', JNum ''1'')])] [JObj [(''a'', JObj [(''y'', JNum ''2'')])]]
             = [(''a'', JObj [(''x'', JNum ''1''), (''y'', JNum ''2'')])]"
    by code_simp
  have e3: "mergeObjects [(''a'', JNum ''1'')] [JObj [(''a'', JStr ''x'')]] = [(''a'', JStr ''x'')]"
    by code_simp
  from rule added c e1 e2 e3 show ?thesis
    by blast
qed

text \<open>
  The accumulator \<open>{a:[1], b:0}\<close> and the source \<open>{a:[2], c:{y:2}}\<close>: the arrays under
  \<open>a\<close> are concatenated, \<open>b\<close> is kept, \<open>c\<close> is added.
\<close>

theorem mergeObjects_per_key_witness:
  "wf_val (JObj [(''a'', JArr [JNum ''1'']), (''b'', JNum ''0'')])
   \<and> wf_val (JObj [(''a'', JArr [JNum ''2'']), (''c'', JObj [(''y'', JNum ''2'')])])
   \<and> protoFree (JObj [(''a'', JArr [JNum ''2'']), (''c'', JObj [(''y'', JNum ''2'')])])
   \<and> map_of (mergeObjects [(''a'', JArr [JNum ''1'']), (''b'', JNum ''0'')]
               [JObj [(''a'', JArr [JNum ''2'']), (''c'', JObj [(''y'', JNum ''2'')])]]) ''a''
       = Some (JArr [JNum ''1'', JNum ''2''])
   \<and> map_of (mergeObjects [(''a'', JArr [JNum ''1'']), (''b'', JNum ''0'')]
               [JObj [(''a'', JArr [JNum ''2'']), (''c'', JObj [(''y'', JNum ''2'')])]]) ''b''
       = Some (JNum ''0'')
   \<and> map_of (mergeObjects [(''a'', JArr [JNum ''1'']), (''b'', JNum ''0'')]
               [JObj [(''a'', JArr [JNum ''2'']), (''c'', JObj [(''y'', JNum ''2'')])]]) ''c''
       = Some (JObj [(''y'', JNum ''2'')])"
proof -
  have t: "wf_val (JObj [(''a'', JArr [JNum ''1'']), (''b'', JNum ''0'')])"
    by code_simp
  have s: "wf_val (JObj [(''a'', JArr [JNum ''2'']), (''c'', JObj [(''y'', JNum ''2'')])])"
    by code_simp
  have p: "protoFree (JObj [(''a'', JArr [JNum ''2'']), (''c'', JObj [(''y'', JNum ''2'')])])"
    by code_simp
  show ?thesis
    using t s p mergeObjects_per_key [OF t s p, of "''a''"] mergeObjects_per_key [OF t s p, of "''b''"]
      mergeObjects_per_key [OF t s p, of "''c''"]
    by (simp add: spec_combine_def obj_get_def)
qed

text \<open>
  The source \<open>{"__proto__": 1}\<close>, as \<^verbatim>\<open>Object.fromEntries([["__proto__", 1]])\<close> builds it,
  is an object whose one own key is \<^verbatim>\<open>__proto__\<close>. Merged into the empty accumulator, the
  assignment \<^verbatim>\<open>target["__proto__"] = 1\<close> calls the setter of the prototype, which ignores a
  number: the key, present only in the source, is not added, and the result is \<open>{}\<close>. The
  extractor builds such a source from the line \<open>__proto__:: x\<close>.
\<close>

theorem mergeObjects_proto_counterexample:
  "wf_val (JObj []) \<and> wf_val (JObj [(''__proto__'', JNum ''1'')])
   \<and> map_of [(''__proto__'', JNum ''1'')] ''__proto__'' = Some (JNum ''1'')
   \<and> map_of (mergeObjects [] [JObj [(''__proto__'', JNum ''1'')]]) ''__proto__'' = None
   \<and> mergeObjects [] [JObj [(''__proto__'', JNum ''1'')]] = []
   \<and> getPropertiesFromBlockContent
        \<lparr>uuid = ''u'', content = ''__proto__:: x'', properties = Some [],
         propertiesOrder = [], refs = [], children = []\<rparr>
       = Inr [(''__proto__'', JUndefined)]
   \<and> ownRead [] (formattedKey ''__proto__'')
   \<and> mergeObjects [] [JObj [(''__proto__'', JUndefined)]] = []"
  by code_simp

section \<open>Properties of the extractor\<close>

text \<open>
  C2. The key \<open>a_b_c\<close> has two characters that are not letters. The normalisation removes
  the first one only, giving \<open>ab_c\<close> and not \<open>abc\<close>: the pattern \<^verbatim>\<open>/[^a-z]/\<close> has no
  \<^verbatim>\<open>g\<close> flag. For the block \<open>a_b_c:: 1\<close>, whose resolved properties hold the value under
  \<open>abc\<close>, the extractor therefore looks up \<open>ab_c\<close> and finds nothing.
\<close>

theorem formattedKey_first_only:
  "formattedKey ''a_b_c'' = ''ab_c''
   \<and> getPropertiesFromBlockContent
        \<lparr>uuid = ''u'', content = ''a_b_c:: 1'', properties = Some [(''abc'', JStr ''1'')],
         propertiesOrder = [''a_b_c''], refs = [], children = []\<rparr>
       = Inr [(''a_b_c'', JUndefined)]"
  by code_simp

lemma getPropertiesFromBlockContent_scannedKeys:
  "getPropertiesFromBlockContent b =
     (case properties b of
        None \<Rightarrow> if scannedKeys (content b) = [] then Inr [] else Inl TypeError
      | Some props \<Rightarrow> Inr (Object_fromEntries (map (propertyEntry props) (scannedKeys (content b)))))"
  by (simp add: getPropertiesFromBlockContent_def scannedKeys_def Let_def Object_fromEntries_def
      split: option.splits)

lemma Object_fromEntries_snoc:
  "Object_fromEntries (es @ [e]) = obj_set (Object_fromEntries es) (fst e) (snd e)"
  by (simp add: Object_fromEntries_def)

lemma map_of_Object_fromEntries: "map_of (Object_fromEntries es) = map_of (rev es)"
proof (induction es rule: rev_induct)
  case Nil
  then show ?case by (simp add: Object_fromEntries_def)
next
  case (snoc e es)
  then show ?case
    by (cases e) (simp add: Object_fromEntries_snoc map_of_obj_set fun_eq_iff)
qed





lemma firstOccurrences_distinct: "distinct ks \<Longrightarrow> firstOccurrences ks = ks"
  by (simp add: firstOccurrences_def distinct_remdups_id)



lemma keys_Object_fromEntries: "set (map fst (Object_fromEntries es)) = set (map fst es)"
proof -
  have "dom (map_of (Object_fromEntries es)) = dom (map_of (rev es))"
    by (simp add: map_of_Object_fromEntries)
  then show ?thesis
    by (simp add: dom_map_of_conv_image_fst)
qed


lemma map_of_rev_propertyEntry:
  "map_of (rev (map (propertyEntry props) ks)) k =
     (if k \<in> set ks then Some (obj_get props (formattedKey k)) else None)"
  by (induction ks) (auto simp: propertyEntry_def map_add_def split: option.splits)




lemma scannedKeys_spec_keys:
  assumes "takeWhile (\<lambda>l. \<not> propertyLineRegex_test l) (split_nl txt) = []
           \<or> dropWhile propertyLineRegex_test (dropWhile (\<lambda>l. \<not> propertyLineRegex_test l) (split_nl txt)) = []"
  shows "scannedKeys txt = spec_keys txt"
proof -
  define lines where "lines = split_nl txt"
  let ?N = "\<lambda>l. \<not> propertyLineRegex_test l"
  define first where "first = length (takeWhile ?N lines)"
  define run where "run = takeWhile propertyLineRegex_test (dropWhile ?N lines)"
  have f: "getFirstPropertyLine lines = int first"
    by (simp add: getFirstPropertyLine_takeWhile first_def)
  have d: "drop first lines = dropWhile ?N lines"
    by (simp add: first_def drop_length_takeWhile)
  have l: "getLastPropertyLine lines (int first) =
           (if length run = length (dropWhile ?N lines) then int (length lines) - 1 else int (length run) - 1)"
    using getLastPropertyLine_run [of "int first" lines] by (simp add: d run_def)
  have "slice lines (int first) (getLastPropertyLine lines (int first) + 1) = run"
  proof (cases "length run = length (dropWhile ?N lines)")
    case True
    then have "run = dropWhile ?N lines"
      unfolding run_def by (metis takeWhile_eq_take take_all order_refl)
    moreover have "first \<le> length lines"
      unfolding first_def by (rule length_takeWhile_le)
    ultimately show ?thesis
      using True l d by (simp add: slice_def slice_bound_def Let_def)
  next
    case False
    then have "dropWhile propertyLineRegex_test (dropWhile ?N lines) \<noteq> []"
      unfolding run_def by (metis takeWhile_dropWhile_id append_Nil2)
    moreover from assms have "takeWhile ?N lines = [] \<or> dropWhile propertyLineRegex_test (dropWhile ?N lines) = []"
      unfolding lines_def .
    ultimately have "takeWhile ?N lines = []"
      by blast
    then have z: "first = 0" and "dropWhile ?N lines = lines"
      unfolding first_def by (simp_all add: takeWhile_eq_Nil_iff dropWhile_eq_self_iff)
    then have r: "run = takeWhile propertyLineRegex_test lines"
      by (simp add: run_def)
    have "length run \<le> length lines"
      unfolding r by (rule length_takeWhile_le)
    with False l z r show ?thesis
      by (simp add: slice_def slice_bound_def Let_def take_length_takeWhile)
  qed
  then have "slice lines (getFirstPropertyLine lines)
      (getLastPropertyLine lines (getFirstPropertyLine lines) + 1) = run"
    by (simp only: f)
  then show ?thesis
    unfolding scannedKeys_def spec_keys_def spec_propertyRange_def Let_def lines_def run_def
    by simp
qed


section \<open>The extractor against its specification\<close>








section \<open>Serialising and extracting again\<close>

lemma is_word_not_space: "is_word c \<Longrightarrow> \<not> is_space c"
  by (auto simp: is_word_def is_space_def Let_def)

lemma colon_not_word: "\<not> is_word (CHR '':'')"
  by (simp add: is_word_def)

lemma blank_is_space: "is_space (CHR '' '')"
  by (simp add: is_space_def)

lemma is_dot_not_newline: "is_dot c \<Longrightarrow> c \<noteq> CHR 0x0A"
  by (auto simp: is_dot_def is_line_terminator_def)

lemma is_word_not_newline: "is_word c \<Longrightarrow> c \<noteq> CHR 0x0A"
  by (auto simp: is_word_def Let_def)

lemma propertyLineRegex_match_key:
  assumes "propertyLineRegex_match l = Some k"
  shows "k \<noteq> [] \<and> list_all is_word k"
proof -
  from assms have "k = takeWhile is_word (dropWhile is_space l)" and "k \<noteq> []"
    by (auto simp: propertyLineRegex_match_def Let_def split: if_splits list.splits)
  then show ?thesis
    by (auto simp: list_all_iff dest: set_takeWhileD)
qed

lemma dropWhile_all: "list_all P xs \<Longrightarrow> dropWhile P (xs @ ys) = dropWhile P ys"
  by (induction xs) auto

lemma takeWhile_all_then_stop:
  "list_all P xs \<Longrightarrow> \<not> P y \<Longrightarrow> takeWhile P (xs @ y # ys) = xs"
  by (induction xs) auto

lemma dropWhile_all_then_stop:
  "list_all P xs \<Longrightarrow> \<not> P y \<Longrightarrow> dropWhile P (xs @ y # ys) = y # ys"
  by (induction xs) auto

lemma list_all_dropWhile: "list_all P xs \<Longrightarrow> list_all P (dropWhile Q xs)"
  by (induction xs) auto

lemma propertyLineRegex_tail_dots: "list_all is_dot v \<Longrightarrow> propertyLineRegex_tail v"
proof -
  assume "list_all is_dot v"
  then have "list_all is_dot (dropWhile is_space v)"
    by (rule list_all_dropWhile)
  then have e: "dropWhile is_dot (dropWhile is_space v) = []"
    by (simp add: list_all_iff dropWhile_eq_Nil_conv)
  show ?thesis
    unfolding propertyLineRegex_tail_def e by simp
qed

lemma propertyLineRegex_match_rendered:
  assumes "k \<noteq> []" and "list_all is_word k" and "list_all is_dot v"
  shows "propertyLineRegex_match (k @ CHR '':'' # CHR '':'' # CHR '' '' # v) = Some k"
proof -
  from assms(1) obtain c cs where k: "k = c # cs"
    by (cases k) auto
  with assms(2) have "\<not> is_space c"
    by (simp add: is_word_not_space)
  with k have d: "dropWhile is_space (k @ CHR '':'' # CHR '':'' # CHR '' '' # v)
      = k @ CHR '':'' # CHR '':'' # CHR '' '' # v"
    by simp
  have t: "takeWhile is_word (k @ CHR '':'' # CHR '':'' # CHR '' '' # v) = k"
    by (rule takeWhile_all_then_stop [OF assms(2) colon_not_word])
  have r: "dropWhile is_word (k @ CHR '':'' # CHR '':'' # CHR '' '' # v)
      = CHR '':'' # CHR '':'' # CHR '' '' # v"
    by (rule dropWhile_all_then_stop [OF assms(2) colon_not_word])
  from assms(3) have "propertyLineRegex_tail v"
    by (rule propertyLineRegex_tail_dots)
  with assms(1) show ?thesis
    by (simp add: propertyLineRegex_match_def Let_def d t r blank_is_space)
qed

lemma split_nl_nonempty: "split_nl s \<noteq> []"
  by (induction s) (auto split: list.splits)

lemma split_nl_no_newline: "CHR 0x0A \<notin> set l \<Longrightarrow> split_nl l = [l]"
  by (induction l) auto

lemma split_nl_append:
  "CHR 0x0A \<notin> set l \<Longrightarrow> split_nl (l @ CHR 0x0A # s) = l # split_nl s"
  by (induction l) auto

lemma split_nl_join_nl:
  "ls \<noteq> [] \<Longrightarrow> \<forall>l \<in> set ls. CHR 0x0A \<notin> set l \<Longrightarrow> split_nl (join_nl ls) = ls"
proof (induction ls rule: join_nl.induct)
  case 1
  then show ?case by simp
next
  case (2 l)
  then show ?case by (simp add: split_nl_no_newline)
next
  case (3 l l' ls)
  then show ?case by (simp add: split_nl_append)
qed

lemma findIndex_none: "list_all (\<lambda>x. \<not> P x) xs \<Longrightarrow> findIndex P xs = - 1"
  by (induction xs) auto

lemma slice_all: "slice xs 0 (int (length xs)) = xs"
  by (simp add: slice_def slice_bound_def)

lemma matchedKeys_all:
  "\<forall>e \<in> set es. propertyLineRegex_match (g e) = Some (h e) \<Longrightarrow> matchedKeys (map g es) = map h es"
  by (induction es) (auto simp: matchedKeys_def)

lemma matchedKeys_key: "k \<in> set (matchedKeys ls) \<Longrightarrow> k \<noteq> [] \<and> list_all is_word k"
proof -
  assume "k \<in> set (matchedKeys ls)"
  then obtain l where "propertyLineRegex_match l = Some k"
    by (auto simp: matchedKeys_def)
  then show ?thesis
    by (rule propertyLineRegex_match_key)
qed

lemma scannedKeys_key: "k \<in> set (scannedKeys txt) \<Longrightarrow> k \<noteq> [] \<and> list_all is_word k"
  unfolding scannedKeys_def Let_def by (rule matchedKeys_key)

lemma scannedKeys_all_match:
  assumes "split_nl txt = map g es" and "es \<noteq> []"
    and "\<forall>e \<in> set es. propertyLineRegex_match (g e) = Some (h e)"
  shows "scannedKeys txt = map h es"
proof -
  let ?ls = "map g es"
  from assms(2) obtain e es' where c: "es = e # es'"
    by (cases es) auto
  with assms(3) have "propertyLineRegex_test (g e)"
    by (simp add: propertyLineRegex_test_def)
  with c have first: "getFirstPropertyLine ?ls = 0"
    by (simp add: getFirstPropertyLine_def)
  from assms(3) have "list_all (\<lambda>x. \<not> \<not> propertyLineRegex_test x) ?ls"
    by (simp add: list_all_iff propertyLineRegex_test_def)
  then have "findIndex (\<lambda>line. \<not> propertyLineRegex_test line) ?ls = - 1"
    by (rule findIndex_none)
  then have last: "getLastPropertyLine ?ls 0 = int (length ?ls) - 1"
    using slice_all [of ?ls] by (simp add: getLastPropertyLine_def slice_from_def)
  from assms(3) have "matchedKeys ?ls = map h es"
    by (rule matchedKeys_all)
  with assms(1) first last show ?thesis
    using slice_all [of ?ls] by (simp add: scannedKeys_def)
qed

lemma scannedKeys_empty: "scannedKeys [] = []"
  by code_simp


lemma keys_extracted:
  "set (map fst (Object_fromEntries (map (propertyEntry props) ks))) = set ks"
proof -
  have fsts: "map fst (map (propertyEntry props) ks) = ks"
    by (simp add: propertyEntry_def comp_def)
  have "set (map fst (Object_fromEntries (map (propertyEntry props) ks)))
      = set (map fst (map (propertyEntry props) ks))"
    by (rule keys_Object_fromEntries)
  then show ?thesis
    unfolding fsts .
qed


section \<open>The round trip through the serializer\<close>

lemma collect_map_Inr: "\<forall>x \<in> set xs. f x = Inr (g x) \<Longrightarrow> collect (map f xs) = Inr (map g xs)"
  by (induction xs) simp_all

text \<open>
  C9. Take a block and the object the extractor returns for it. When every value of the
  object can be printed (printing throws for an object that has an own property
  \<^verbatim>\<open>toString\<close>) and no printed form holds a line terminator, a carriage return no more
  than a line feed, since \<^verbatim>\<open>.\<close> in the property pattern matches neither, then the
  serializer returns a text, and extracting again from that text, against the same
  resolved properties, gives the same object. The statement is for the blocks whose
  look-ups stay among the resolved properties: no key of the object is looked up under a
  name that every object inherits, unless the resolved properties hold that name
  themselves.
\<close>

theorem extract_format_roundtrip:
  assumes ex: "getPropertiesFromBlockContent b = Inr ob"
    and dots: "list_all (\<lambda>e. case toString (snd e) of Inl err \<Rightarrow> False | Inr s \<Rightarrow> list_all is_dot s) ob"
    and own: "case properties b of
                None \<Rightarrow> True
              | Some props \<Rightarrow> list_all (\<lambda>e. ownRead props (formattedKey (fst e))) ob"
  shows "\<exists>txt. formatPropertiesString ob = Inr txt
           \<and> getPropertiesFromBlockContent (b\<lparr>content := txt\<rparr>) = Inr ob"
proof (cases "ob = []")
  case True
  have "formatPropertiesString [] = Inr []"
    by (simp add: formatPropertiesString_def)
  moreover from ex True have "getPropertiesFromBlockContent (b\<lparr>content := []\<rparr>) = Inr []"
    by (simp add: getPropertiesFromBlockContent_scannedKeys scannedKeys_empty Object_fromEntries_def
        split: option.splits)
  ultimately show ?thesis
    using True by simp
next
  case False
  let ?ks = "scannedKeys (content b)"
  define pr where "pr e = (case toString (snd e) of Inl err \<Rightarrow> [] | Inr s \<Rightarrow> s)" for e :: "string \<times> jsval"
  define line where "line e = fst e @ '':: '' @ pr e" for e
  from ex False obtain props where p: "properties b = Some props"
    and o: "ob = Object_fromEntries (map (propertyEntry props) ?ks)"
    by (auto simp: getPropertiesFromBlockContent_scannedKeys split: option.splits if_splits)
  have fsts: "map fst (map (propertyEntry props) ?ks) = ?ks"
    by (simp add: propertyEntry_def comp_def)
  have c: "canonical ob"
    unfolding o by (rule canonical_Object_fromEntries)
  then have d: "distinct (map fst ob)"
    by (simp add: canonical_def canonical_keys_distinct)
  have keys: "set (map fst ob) = set ?ks"
    unfolding o by (rule keys_extracted)
  have m: "map_of ob k = (if k \<in> set ?ks then Some (obj_get props (formattedKey k)) else None)" for k
    unfolding o by (simp add: map_of_Object_fromEntries map_of_rev_propertyEntry)
  have entry: "propertyEntry props (fst e) = e" if "e \<in> set ob" for e
  proof -
    have "map_of ob (fst e) = Some (snd e)"
      using that d map_of_is_SomeI [of ob "fst e" "snd e"] by simp
    moreover from that keys have "fst e \<in> set ?ks"
      by auto
    ultimately have "obj_get props (formattedKey (fst e)) = snd e"
      by (simp add: m)
    then show ?thesis
      by (simp add: propertyEntry_def prod_eq_iff)
  qed
  have word: "fst e \<noteq> [] \<and> list_all is_word (fst e)" if "e \<in> set ob" for e
  proof -
    from that keys have "fst e \<in> set ?ks"
      by auto
    then show ?thesis
      by (rule scannedKeys_key)
  qed
  have printed: "toString (snd e) = Inr (pr e) \<and> list_all is_dot (pr e)" if "e \<in> set ob" for e
  proof -
    from that dots have "case toString (snd e) of Inl err \<Rightarrow> False | Inr s \<Rightarrow> list_all is_dot s"
      by (simp add: list_all_iff)
    then show ?thesis
      by (cases "toString (snd e)") (simp_all add: pr_def)
  qed
  have "\<forall>e \<in> set ob. formatEntry e = Inr (line e)"
    using printed by (simp add: formatEntry_def line_def)
  then have "collect (map formatEntry ob) = Inr (map line ob)"
    by (rule collect_map_Inr)
  then have f: "formatPropertiesString ob = Inr (join_nl (map line ob))"
    by (simp add: formatPropertiesString_def)
  have matches: "\<forall>e \<in> set ob. propertyLineRegex_match (line e) = Some (fst e)"
    using word printed by (simp add: line_def propertyLineRegex_match_rendered)
  have "CHR 0x0A \<notin> set (line e)" if "e \<in> set ob" for e
    using word [OF that] printed [OF that]
    by (auto simp: line_def list_all_iff dest: is_word_not_newline is_dot_not_newline)
  then have "\<forall>l \<in> set (map line ob). CHR 0x0A \<notin> set l"
    by auto
  with False have "split_nl (join_nl (map line ob)) = map line ob"
    by (simp add: split_nl_join_nl)
  from this False matches have "scannedKeys (join_nl (map line ob)) = map fst ob"
    by (rule scannedKeys_all_match)
  moreover have "map (propertyEntry props) (map fst ob) = ob"
    using entry by (simp add: map_idI)
  moreover from c have "Object_fromEntries ob = ob"
    by (rule Object_fromEntries_canonical)
  ultimately have "getPropertiesFromBlockContent (b\<lparr>content := join_nl (map line ob)\<rparr>) = Inr ob"
    using p by (simp add: getPropertiesFromBlockContent_scannedKeys)
  with f show ?thesis
    by blast
qed

text \<open>
  The block \<open>Title / foo:: 1 / bar:: 2\<close> with the resolved properties
  \<open>{foo: 1, bar: ["x", "y z"]}\<close>: the serializer prints \<open>foo:: 1 / bar:: x,y z\<close>.
\<close>

theorem extract_format_roundtrip_witness:
  "getPropertiesFromBlockContent
     \<lparr>uuid = ''u'', content = ''Title\<newline>foo:: 1\<newline>bar:: 2'',
      properties = Some [(''foo'', JNum ''1''), (''bar'', JArr [JStr ''x'', JStr ''y z''])],
      propertiesOrder = [''foo'', ''bar''], refs = [], children = []\<rparr>
     = Inr [(''foo'', JNum ''1''), (''bar'', JArr [JStr ''x'', JStr ''y z''])]
   \<and> list_all (\<lambda>e. case toString (snd e) of Inl err \<Rightarrow> False | Inr s \<Rightarrow> list_all is_dot s)
        [(''foo'', JNum ''1''), (''bar'', JArr [JStr ''x'', JStr ''y z''])]
   \<and> list_all (\<lambda>e. ownRead [(''foo'', JNum ''1''), (''bar'', JArr [JStr ''x'', JStr ''y z''])]
                      (formattedKey (fst e)))
        [(''foo'', JNum ''1''), (''bar'', JArr [JStr ''x'', JStr ''y z''])]
   \<and> formatPropertiesString [(''foo'', JNum ''1''), (''bar'', JArr [JStr ''x'', JStr ''y z''])]
       = Inr ''foo:: 1\<newline>bar:: x,y z''
   \<and> getPropertiesFromBlockContent
       (\<lparr>uuid = ''u'', content = ''Title\<newline>foo:: 1\<newline>bar:: 2'',
         properties = Some [(''foo'', JNum ''1''), (''bar'', JArr [JStr ''x'', JStr ''y z''])],
         propertiesOrder = [''foo'', ''bar''], refs = [], children = []\<rparr>
        \<lparr>content := ''foo:: 1\<newline>bar:: x,y z''\<rparr>)
     = Inr [(''foo'', JNum ''1''), (''bar'', JArr [JStr ''x'', JStr ''y z''])]"
proof -
  define ob where "ob = [(''foo'', JNum ''1''), (''bar'', JArr [JStr ''x'', JStr ''y z''])]"
  define b where "b = \<lparr>uuid = ''u'', content = ''Title\<newline>foo:: 1\<newline>bar:: 2'',
      properties = Some ob, propertiesOrder = [''foo'', ''bar''], refs = [], children = []\<rparr>"
  have h1: "getPropertiesFromBlockContent b = Inr ob"
    unfolding b_def ob_def by code_simp
  have h2: "list_all (\<lambda>e. case toString (snd e) of Inl err \<Rightarrow> False | Inr s \<Rightarrow> list_all is_dot s) ob"
    unfolding ob_def by code_simp
  have h3: "list_all (\<lambda>e. ownRead ob (formattedKey (fst e))) ob"
    unfolding ob_def by code_simp
  from h3 have h3': "case properties b of
                None \<Rightarrow> True
              | Some props \<Rightarrow> list_all (\<lambda>e. ownRead props (formattedKey (fst e))) ob"
    by (simp add: b_def)
  have f: "formatPropertiesString ob = Inr ''foo:: 1\<newline>bar:: x,y z''"
    unfolding ob_def by code_simp
  from extract_format_roundtrip [OF h1 h2 h3'] obtain printed
    where "formatPropertiesString ob = Inr printed
      \<and> getPropertiesFromBlockContent (b\<lparr>content := printed\<rparr>) = Inr ob" ..
  then have "Inr printed = formatPropertiesString ob"
    and r: "getPropertiesFromBlockContent (b\<lparr>content := printed\<rparr>) = Inr ob"
    by simp_all
  with f have "printed = ''foo:: 1\<newline>bar:: x,y z''"
    by simp
  with r have g: "getPropertiesFromBlockContent (b\<lparr>content := ''foo:: 1\<newline>bar:: x,y z''\<rparr>) = Inr ob"
    by (simp only:)
  from h1 h2 h3 f g show ?thesis
    unfolding b_def ob_def by (intro conjI)
qed

text \<open>
  The claim as written fails in two ways. A value with a carriage return in it holds no
  newline for \<^verbatim>\<open>split("\n")\<close> and \<^verbatim>\<open>join("\n")\<close>: with the resolved properties
  \<open>{a: "x\ry"}\<close> the block \<open>a:: x\<close> extracts to \<open>{a: "x\ry"}\<close>, whose serialisation is
  one line that the property pattern does not match, so extracting again gives \<open>{}\<close>. And
  a value may hold no newline and have no printed form: with the resolved properties
  \<open>{a: {toString: 1}}\<close> the same block extracts to \<open>{a: {toString: 1}}\<close>, which the
  serializer cannot print.
\<close>

theorem extract_format_roundtrip_counterexample:
  "getPropertiesFromBlockContent
     \<lparr>uuid = ''u'', content = ''a:: x'', properties = Some [(''a'', JStr [CHR ''x'', CHR 0x0D, CHR ''y''])],
      propertiesOrder = [''a''], refs = [], children = []\<rparr>
     = Inr [(''a'', JStr [CHR ''x'', CHR 0x0D, CHR ''y''])]
   \<and> toString (JStr [CHR ''x'', CHR 0x0D, CHR ''y'']) = Inr [CHR ''x'', CHR 0x0D, CHR ''y'']
   \<and> CHR 0x0A \<notin> set [CHR ''x'', CHR 0x0D, CHR ''y'']
   \<and> formatPropertiesString [(''a'', JStr [CHR ''x'', CHR 0x0D, CHR ''y''])]
       = Inr [CHR ''a'', CHR '':'', CHR '':'', CHR '' '', CHR ''x'', CHR 0x0D, CHR ''y'']
   \<and> getPropertiesFromBlockContent
       (\<lparr>uuid = ''u'', content = ''a:: x'', properties = Some [(''a'', JStr [CHR ''x'', CHR 0x0D, CHR ''y''])],
         propertiesOrder = [''a''], refs = [], children = []\<rparr>
        \<lparr>content := [CHR ''a'', CHR '':'', CHR '':'', CHR '' '', CHR ''x'', CHR 0x0D, CHR ''y'']\<rparr>)
       = Inr []
   \<and> getPropertiesFromBlockContent
       (\<lparr>uuid = ''u'', content = ''a:: x'', properties = Some [(''a'', JStr [CHR ''x'', CHR 0x0D, CHR ''y''])],
         propertiesOrder = [''a''], refs = [], children = []\<rparr>
        \<lparr>content := [CHR ''a'', CHR '':'', CHR '':'', CHR '' '', CHR ''x'', CHR 0x0D, CHR ''y'']\<rparr>)
       \<noteq> Inr [(''a'', JStr [CHR ''x'', CHR 0x0D, CHR ''y''])]
   \<and> getPropertiesFromBlockContent
       \<lparr>uuid = ''u'', content = ''a:: x'', properties = Some [(''a'', JObj [(''toString'', JNum ''1'')])],
        propertiesOrder = [''a''], refs = [], children = []\<rparr>
       = Inr [(''a'', JObj [(''toString'', JNum ''1'')])]
   \<and> formatPropertiesString [(''a'', JObj [(''toString'', JNum ''1'')])] = Inl TypeError"
  by code_simp

section \<open>The property pattern as a language\<close>

lemma propertyLineRegex_tail_parts:
  "list_all is_space sp \<Longrightarrow> list_all is_dot val \<Longrightarrow> list_all is_space tr
   \<Longrightarrow> propertyLineRegex_tail (sp @ val @ tr)"
proof -
  assume sp: "list_all is_space sp" and tr: "list_all is_space tr"
  have "list_all is_dot val \<Longrightarrow> list_all is_space (dropWhile is_dot (dropWhile is_space (val @ tr)))"
  proof (induction val)
    case Nil
    from tr have e: "dropWhile is_space tr = []"
      by (simp add: list_all_iff dropWhile_eq_Nil_conv)
    show ?case
      unfolding append_Nil e by simp
  next
    case (Cons v val)
    show ?case
    proof (cases "is_space v")
      case True
      with Cons show ?thesis by simp
    next
      case False
      from Cons.prems have "dropWhile is_dot (v # val @ tr) = dropWhile is_dot tr"
        using dropWhile_all [of is_dot "v # val" tr] by simp
      moreover from tr have "list_all is_space (dropWhile is_dot tr)"
        by (rule list_all_dropWhile)
      ultimately show ?thesis
        using False by simp
    qed
  qed
  moreover assume "list_all is_dot val"
  ultimately have "list_all is_space (dropWhile is_dot (dropWhile is_space (val @ tr)))" .
  with sp show ?thesis
    by (simp add: propertyLineRegex_tail_def dropWhile_all)
qed

lemma list_all_takeWhile: "list_all P (takeWhile P xs)"
  by (induction xs) auto

text \<open>
  The pattern, read as a language: a line has a match with the key \<open>key\<close> exactly when
  it is whitespace, the key (word characters, at least one), \<open>::\<close>, whitespace (at
  least one character), characters other than line terminators, and whitespace. So
  \<open>propertyLineRegex_match\<close> finds a match when there is one, and the first capture group
  is the same in every match.
\<close>

theorem propertyLineRegex_match_iff:
  "propertyLineRegex_match line = Some key \<longleftrightarrow>
     (\<exists>ws sp val tr.
        line = ws @ key @ ''::'' @ sp @ val @ tr
        \<and> list_all is_space ws
        \<and> key \<noteq> [] \<and> list_all is_word key
        \<and> sp \<noteq> [] \<and> list_all is_space sp
        \<and> list_all is_dot val
        \<and> list_all is_space tr)"
proof
  assume m: "propertyLineRegex_match line = Some key"
  let ?r1 = "dropWhile is_space line"
  from m have k: "key = takeWhile is_word ?r1" and ne: "key \<noteq> []"
    by (auto simp: propertyLineRegex_match_def Let_def split: if_splits list.splits)
  from m ne k obtain c3 r3 where r: "dropWhile is_word ?r1 = CHR '':'' # CHR '':'' # c3 # r3"
    and c3: "is_space c3" and t: "propertyLineRegex_tail r3"
    by (auto simp: propertyLineRegex_match_def Let_def split: if_splits list.splits)
  let ?rest = "dropWhile is_space r3"
  have e1: "takeWhile is_space r3 @ takeWhile is_dot ?rest @ dropWhile is_dot ?rest = r3"
    by simp
  have e2: "key @ CHR '':'' # CHR '':'' # c3 # r3 = ?r1"
    unfolding k r [symmetric] by simp
  have e3: "takeWhile is_space line @ ?r1 = line"
    by simp
  have "line = takeWhile is_space line @ key @ CHR '':'' # CHR '':'' # c3 #
      (takeWhile is_space r3 @ takeWhile is_dot ?rest @ dropWhile is_dot ?rest)"
    by (simp only: e1 e2 e3)
  then have "line = takeWhile is_space line @ key @ ''::'' @ (c3 # takeWhile is_space r3)
      @ takeWhile is_dot ?rest @ dropWhile is_dot ?rest"
    by simp
  moreover from t have "list_all is_space (dropWhile is_dot ?rest)"
    by (simp add: propertyLineRegex_tail_def)
  moreover have "list_all is_word key"
    unfolding k by (rule list_all_takeWhile)
  ultimately show "\<exists>ws sp val tr.
        line = ws @ key @ ''::'' @ sp @ val @ tr
        \<and> list_all is_space ws
        \<and> key \<noteq> [] \<and> list_all is_word key
        \<and> sp \<noteq> [] \<and> list_all is_space sp
        \<and> list_all is_dot val
        \<and> list_all is_space tr"
    using ne c3 list_all_takeWhile [of is_space] list_all_takeWhile [of is_dot]
    by (intro exI [of _ "takeWhile is_space line"] exI [of _ "c3 # takeWhile is_space r3"]
        exI [of _ "takeWhile is_dot ?rest"] exI [of _ "dropWhile is_dot ?rest"]) simp
next
  assume "\<exists>ws sp val tr.
        line = ws @ key @ ''::'' @ sp @ val @ tr
        \<and> list_all is_space ws
        \<and> key \<noteq> [] \<and> list_all is_word key
        \<and> sp \<noteq> [] \<and> list_all is_space sp
        \<and> list_all is_dot val
        \<and> list_all is_space tr"
  then obtain ws sp val tr where l: "line = ws @ key @ ''::'' @ sp @ val @ tr"
    and ws: "list_all is_space ws" and ne: "key \<noteq> []" and w: "list_all is_word key"
    and sne: "sp \<noteq> []" and sp: "list_all is_space sp" and val: "list_all is_dot val"
    and tr: "list_all is_space tr"
    by blast
  from sne obtain c3 sp' where s: "sp = c3 # sp'"
    by (cases sp) auto
  with sp have c3: "is_space c3" and sp': "list_all is_space sp'"
    by simp_all
  let ?after = "CHR '':'' # c3 # sp' @ val @ tr"
  from ne obtain c cs where kc: "key = c # cs"
    by (cases key) auto
  with w have "\<not> is_space c"
    by (simp add: is_word_not_space)
  with kc have "dropWhile is_space (key @ CHR '':'' # ?after) = key @ CHR '':'' # ?after"
    by simp
  with ws have d: "dropWhile is_space line = key @ CHR '':'' # ?after"
    unfolding l s by (simp add: dropWhile_all)
  have tk: "takeWhile is_word (key @ CHR '':'' # ?after) = key"
    by (rule takeWhile_all_then_stop [OF w colon_not_word])
  have dk: "dropWhile is_word (key @ CHR '':'' # ?after) = CHR '':'' # ?after"
    by (rule dropWhile_all_then_stop [OF w colon_not_word])
  from sp' val tr have "propertyLineRegex_tail (sp' @ val @ tr)"
    by (rule propertyLineRegex_tail_parts)
  with ne c3 show "propertyLineRegex_match line = Some key"
    by (simp add: propertyLineRegex_match_def Let_def d tk dk)
qed

section \<open>Where the code meets the specification of the scanner\<close>

text \<open>
  The two conditions under which the extractor is compared with its specification are not
  stronger than needed. The keys the code scans are those of the specified range exactly
  when the range starts at the first line or runs to the last line: otherwise the code
  drops from the end of the range as many keys as there are lines before it. And the code
  normalises a key as specified exactly when the key holds at most one character that is
  not a letter.
\<close>

lemma replace_nonletter_filter_iff:
  "replace_nonletter s = filter is_lower_letter s
     \<longleftrightarrow> length (filter (\<lambda>c. \<not> is_lower_letter c) s) \<le> 1"
proof (induction s)
  case Nil
  then show ?case by simp
next
  case (Cons c cs)
  show ?case
  proof (cases "is_lower_letter c")
    case True
    with Cons show ?thesis by simp
  next
    case False
    have "cs = filter is_lower_letter cs \<longleftrightarrow> filter (\<lambda>c. \<not> is_lower_letter c) cs = []"
      by (metis filter_id_conv filter_empty_conv)
    with False show ?thesis by simp
  qed
qed

lemma matchedKeys_run:
  "list_all propertyLineRegex_test ls \<Longrightarrow> matchedKeys ls = map (\<lambda>l. the (propertyLineRegex_match l)) ls"
  by (induction ls) (auto simp: matchedKeys_def propertyLineRegex_test_def)

lemma scannedKeys_shortened:
  "scannedKeys txt =
     (if dropWhile propertyLineRegex_test
           (dropWhile (\<lambda>l. \<not> propertyLineRegex_test l) (split_nl txt)) = []
      then spec_keys txt
      else take (length (spec_keys txt)
                  - length (takeWhile (\<lambda>l. \<not> propertyLineRegex_test l) (split_nl txt)))
             (spec_keys txt))"
proof -
  define lines where "lines = split_nl txt"
  let ?N = "\<lambda>l. \<not> propertyLineRegex_test l"
  define first where "first = length (takeWhile ?N lines)"
  define run where "run = takeWhile propertyLineRegex_test (dropWhile ?N lines)"
  have ar: "list_all propertyLineRegex_test run"
    unfolding run_def by (rule list_all_takeWhile)
  have sk: "spec_keys txt = matchedKeys run"
    by (simp add: spec_keys_def spec_propertyRange_def run_def lines_def)
  show ?thesis
  proof (cases "dropWhile propertyLineRegex_test (dropWhile ?N lines) = []")
    case True
    then have c: "dropWhile propertyLineRegex_test (dropWhile ?N (split_nl txt)) = []"
      unfolding lines_def .
    then have "scannedKeys txt = spec_keys txt"
      by (intro scannedKeys_spec_keys disjI2)
    then show ?thesis
      unfolding if_P [OF c] .
  next
    case False
    have f: "getFirstPropertyLine lines = int first"
      by (simp add: getFirstPropertyLine_takeWhile first_def)
    have d: "drop first lines = dropWhile ?N lines"
      by (simp add: first_def drop_length_takeWhile)
    define after where "after = dropWhile propertyLineRegex_test (dropWhile ?N lines)"
    have "run @ after = dropWhile ?N lines"
      unfolding run_def after_def by (rule takeWhile_dropWhile_id)
    then have "length run + length after = length (dropWhile ?N lines)"
      by (metis length_append)
    moreover from False have "after \<noteq> []"
      unfolding after_def .
    then have "0 < length after"
      by simp
    ultimately have ne: "length run \<noteq> length (dropWhile ?N lines)"
      by linarith
    have l: "getLastPropertyLine lines (int first) = int (length run) - 1"
      using getLastPropertyLine_run [of "int first" lines] ne by (simp add: d run_def)
    have rl: "length run \<le> length lines - first"
      using length_takeWhile_le [of propertyLineRegex_test "dropWhile ?N lines"]
      unfolding run_def d [symmetric] by simp
    have fl: "first \<le> length lines"
      unfolding first_def by (rule length_takeWhile_le)
    have r: "run = take (length run) (drop first lines)"
      unfolding d run_def by (simp add: take_length_takeWhile)
    from rl fl have "slice lines (int first) (int (length run) - 1 + 1) = take (length run - first) (drop first lines)"
      by (simp add: slice_def slice_bound_def Let_def)
    also have "\<dots> = take (length run - first) (take (length run) (drop first lines))"
      by (simp add: min_def)
    also have "\<dots> = take (length run - first) run"
      using r by simp
    finally have s: "slice lines (getFirstPropertyLine lines)
        (getLastPropertyLine lines (getFirstPropertyLine lines) + 1) = take (length run - first) run"
      by (simp only: f l)
    from ar have "list_all propertyLineRegex_test (take (length run - first) run)"
      by (auto simp: list_all_iff dest: in_set_takeD)
    then have "matchedKeys (take (length run - first) run)
        = map (\<lambda>l. the (propertyLineRegex_match l)) (take (length run - first) run)"
      by (rule matchedKeys_run)
    also have "\<dots> = take (length run - first) (matchedKeys run)"
      using ar by (simp add: matchedKeys_run take_map)
    finally have "scannedKeys txt = take (length run - first) (matchedKeys run)"
      using s by (simp add: scannedKeys_def Let_def lines_def)
    moreover from ar have "length (matchedKeys run) = length run"
      by (simp add: matchedKeys_run)
    ultimately have k: "scannedKeys txt = take (length (spec_keys txt) - first) (spec_keys txt)"
      by (simp only: sk)
    from False have c: "dropWhile propertyLineRegex_test (dropWhile ?N (split_nl txt)) \<noteq> []"
      unfolding lines_def .
    from k show ?thesis
      unfolding if_not_P [OF c] first_def lines_def .
  qed
qed

lemma scannedKeys_spec_keys_iff:
  "scannedKeys txt = spec_keys txt \<longleftrightarrow>
     takeWhile (\<lambda>l. \<not> propertyLineRegex_test l) (split_nl txt) = []
     \<or> dropWhile propertyLineRegex_test (dropWhile (\<lambda>l. \<not> propertyLineRegex_test l) (split_nl txt)) = []"
proof
  assume "takeWhile (\<lambda>l. \<not> propertyLineRegex_test l) (split_nl txt) = []
     \<or> dropWhile propertyLineRegex_test (dropWhile (\<lambda>l. \<not> propertyLineRegex_test l) (split_nl txt)) = []"
  then show "scannedKeys txt = spec_keys txt"
    by (rule scannedKeys_spec_keys)
next
  assume eq: "scannedKeys txt = spec_keys txt"
  let ?N = "\<lambda>l. \<not> propertyLineRegex_test l"
  show "takeWhile ?N (split_nl txt) = [] \<or> dropWhile propertyLineRegex_test (dropWhile ?N (split_nl txt)) = []"
  proof (rule ccontr)
    assume "\<not> ?thesis"
    then have t: "takeWhile ?N (split_nl txt) \<noteq> []"
      and dd: "dropWhile propertyLineRegex_test (dropWhile ?N (split_nl txt)) \<noteq> []"
      by simp_all
    have "dropWhile ?N (split_nl txt) \<noteq> []"
    proof
      assume e: "dropWhile ?N (split_nl txt) = []"
      from dd show False
        unfolding e by simp
    qed
    then obtain l ls where c: "dropWhile ?N (split_nl txt) = l # ls"
      by (cases "dropWhile ?N (split_nl txt)") auto
    then have "propertyLineRegex_test l"
      using hd_dropWhile [of ?N "split_nl txt"] by simp
    with c have "spec_propertyRange (split_nl txt) \<noteq> []"
      by (simp add: spec_propertyRange_def)
    moreover have "list_all propertyLineRegex_test (spec_propertyRange (split_nl txt))"
      unfolding spec_propertyRange_def by (rule list_all_takeWhile)
    ultimately have "spec_keys txt \<noteq> []"
      by (simp add: spec_keys_def matchedKeys_run)
    then have "0 < length (spec_keys txt)"
      by simp
    moreover from t have "0 < length (takeWhile ?N (split_nl txt))"
      by simp
    ultimately have "length (take (length (spec_keys txt) - length (takeWhile ?N (split_nl txt))) (spec_keys txt))
        < length (spec_keys txt)"
      by simp
    with dd have "length (scannedKeys txt) < length (spec_keys txt)"
      by (simp only: scannedKeys_shortened if_False)
    with eq show False
      by simp
  qed
qed

lemma formattedKey_spec_normalize_iff:
  "formattedKey key = spec_normalize key
     \<longleftrightarrow> length (filter (\<lambda>c. \<not> is_lower_letter c) (toLowerCase key)) \<le> 1"
  by (simp add: formattedKey_def spec_normalize_def replace_nonletter_filter_iff)

section \<open>Properties of the waiter\<close>





section \<open>Properties of the relocation\<close>

lemma moveChildren_append:
  "moveChildren mv (pre @ rest) t h calls =
     (case moveChildren mv pre t h calls of
        Completed h1 cursor calls1 \<Rightarrow> moveChildren mv rest cursor h1 calls1
      | Returned h1 calls1 \<Rightarrow> Returned h1 calls1)"
  by (induction pre arbitrary: t h calls) (auto split: prod.splits bool.splits)

lemma moveChildren_calls:
  "moveChildren mv cs t h calls = Completed h' cursor calls' \<Longrightarrow>
   calls' = calls @ map2 moveCall cs (t # cs) \<and> cursor = last (t # cs)"
proof (induction cs arbitrary: t h calls)
  case Nil
  then show ?case by simp
next
  case (Cons c cs)
  obtain ok h1 where m: "mv h c t = (ok, h1)"
    by (cases "mv h c t")
  with Cons.prems have ok and "moveChildren mv cs c h1 (calls @ [MoveBlock c t False False]) = Completed h' cursor calls'"
    by (cases ok; simp)+
  with Cons.IH [of c h1 "calls @ [MoveBlock c t False False]"] show ?case
    by simp
qed

lemma insertAfter_first:
  "x \<notin> set A \<Longrightarrow> insertAfter x c (A @ x # B) = A @ x # c # B"
  by (induction A) auto

lemma moveChildren_pageMove:
  "x \<notin> set A \<Longrightarrow> distinct cs \<Longrightarrow> set cs \<inter> set (A @ x # B) = {} \<Longrightarrow>
   moveChildren pageMove cs x (A @ x # B) calls =
     Completed (A @ x # cs @ B) (last (x # cs)) (calls @ map2 moveCall cs (x # cs))"
proof (induction cs arbitrary: A x calls)
  case Nil
  then show ?case by simp
next
  case (Cons c cs)
  from Cons.prems have fresh: "c \<notin> set (A @ x # B)" and ne: "c \<noteq> x"
    by auto
  then have "removeAll c (A @ x # B) = A @ x # B"
    by (simp del: removeAll.simps removeAll_append add: removeAll_id)
  with Cons.prems(1) ne have step: "pageMove (A @ x # B) c x = (True, (A @ [x]) @ c # B)"
    by (simp add: pageMove_def insertAfter_first del: removeAll.simps removeAll_append)
  from Cons.prems fresh have "c \<notin> set (A @ [x])" and "distinct cs"
    and "set cs \<inter> set ((A @ [x]) @ c # B) = {}"
    by auto
  from Cons.IH [OF this, of "calls @ [MoveBlock c x False False]"] step show ?case
    by simp
qed

text \<open>
  C5. From the anchor as first cursor, the loop moves each child in the original order to
  the place right after the cursor and makes that child the cursor: when every move
  succeeds, whatever the host, the calls are \<open>(c1, anchor), (c2, c1), (c3, c2), ...\<close>.
  On a page whose blocks are \<open>pre, anchor, post\<close>, for distinct children that are not
  among them, every move succeeds and the page becomes \<open>pre, anchor, c1, ..., cn, post\<close>:
  the children in their original order, right after the anchor.
\<close>

theorem moveChildren_order:
  assumes "anchor \<notin> set pre" and "distinct (children srcBlock)"
    and "set (children srcBlock) \<inter> set (pre @ anchor # post) = {}"
    and "uuid targetBlock = anchor"
  shows "moveChildren pageMove (children srcBlock) (uuid targetBlock) (pre @ anchor # post) []
           = Completed (pre @ anchor # children srcBlock @ post)
               (last (anchor # children srcBlock))
               (map2 moveCall (children srcBlock) (anchor # children srcBlock))
         \<and> (\<forall>moveBlock h h' cursor calls.
               moveChildren moveBlock (children srcBlock) (uuid targetBlock) h [] = Completed h' cursor calls
               \<longrightarrow> calls = map2 moveCall (children srcBlock) (anchor # children srcBlock)
                    \<and> cursor = last (anchor # children srcBlock))"
proof -
  have "moveChildren pageMove (children srcBlock) anchor (pre @ anchor # post) []
      = Completed (pre @ anchor # children srcBlock @ post)
          (last (anchor # children srcBlock))
          ([] @ map2 moveCall (children srcBlock) (anchor # children srcBlock))"
    using assms(1-3) by (rule moveChildren_pageMove)
  then have page: "moveChildren pageMove (children srcBlock) anchor (pre @ anchor # post) []
      = Completed (pre @ anchor # children srcBlock @ post)
          (last (anchor # children srcBlock))
          (map2 moveCall (children srcBlock) (anchor # children srcBlock))"
    by (simp only: append_Nil)
  show ?thesis
    unfolding assms(4)
  proof (rule conjI)
    show "moveChildren pageMove (children srcBlock) anchor (pre @ anchor # post) []
      = Completed (pre @ anchor # children srcBlock @ post)
          (last (anchor # children srcBlock))
          (map2 moveCall (children srcBlock) (anchor # children srcBlock))"
      by (rule page)
  next
    show "\<forall>moveBlock h h' cursor calls.
        moveChildren moveBlock (children srcBlock) anchor h [] = Completed h' cursor calls
        \<longrightarrow> calls = map2 moveCall (children srcBlock) (anchor # children srcBlock)
             \<and> cursor = last (anchor # children srcBlock)"
    proof (intro allI impI)
      fix moveBlock h h' cursor calls
      assume "moveChildren moveBlock (children srcBlock) anchor h [] = Completed h' cursor calls"
      then have "calls = [] @ map2 moveCall (children srcBlock) (anchor # children srcBlock)
          \<and> cursor = last (anchor # children srcBlock)"
        by (rule moveChildren_calls)
      then show "calls = map2 moveCall (children srcBlock) (anchor # children srcBlock)
          \<and> cursor = last (anchor # children srcBlock)"
        by (simp only: append_Nil)
    qed
  qed
qed

text \<open>The children \<open>c1, c2, c3\<close> moved to the anchor \<open>T\<close> of the page \<open>A, T, B\<close>.\<close>

theorem moveChildren_order_witness:
  "''T'' \<notin> set [''A'']
   \<and> distinct [''c1'', ''c2'', ''c3'']
   \<and> set [''c1'', ''c2'', ''c3''] \<inter> set ([''A''] @ ''T'' # [''B'']) = {}
   \<and> moveChildren pageMove [''c1'', ''c2'', ''c3''] ''T'' [''A'', ''T'', ''B''] []
       = Completed [''A'', ''T'', ''c1'', ''c2'', ''c3'', ''B''] ''c3''
           [MoveBlock ''c1'' ''T'' False False, MoveBlock ''c2'' ''c1'' False False, MoveBlock ''c3'' ''c2'' False False]"
proof -
  define src where "src = \<lparr>uuid = ''s'', content = ''Title'', properties = None,
      propertiesOrder = [], refs = [], children = [''c1'', ''c2'', ''c3'']\<rparr>"
  define tgt where "tgt = \<lparr>uuid = ''T'', content = [], properties = None,
      propertiesOrder = [], refs = [], children = []\<rparr>"
  have h1: "''T'' \<notin> set [''A'']"
    by simp
  have h2: "distinct (children src)"
    by (simp add: src_def)
  have h3: "set (children src) \<inter> set ([''A''] @ ''T'' # [''B'']) = {}"
    by (simp add: src_def)
  have h4: "uuid tgt = ''T''"
    by (simp add: tgt_def)
  have c: "children src = [''c1'', ''c2'', ''c3'']"
    by (simp add: src_def)
  from moveChildren_order [OF h1 h2 h3 h4, THEN conjunct1]
  have "moveChildren pageMove [''c1'', ''c2'', ''c3''] ''T'' [''A'', ''T'', ''B''] []
       = Completed [''A'', ''T'', ''c1'', ''c2'', ''c3'', ''B''] ''c3''
           [MoveBlock ''c1'' ''T'' False False, MoveBlock ''c2'' ''c1'' False False, MoveBlock ''c3'' ''c2'' False False]"
    unfolding c h4 by simp
  with h1 h2 h3 show ?thesis
    unfolding c by (intro conjI)
qed

text \<open>
  C6. When the moves of the children before \<open>c\<close> succeed and the move of \<open>c\<close> fails, the
  loop stops there: the calls made are the moves of the earlier children, the failed move
  of \<open>c\<close>, the console message and the user message \<open>move block error\<close>, and nothing
  else, so no later child is attempted and no call takes back an earlier move or an
  earlier write; the host is left as the failed call left it; \<open>main\<close> returns without
  running the statements after the loop.
\<close>

theorem moveChildren_abort:
  assumes "moveChildren moveBlock pre (uuid targetBlock) h [] = Completed h1 cursor calls1"
    and "moveBlock h1 c cursor = (False, h2)"
    and "children srcBlock = pre @ c # post"
  shows "moveChildren moveBlock (children srcBlock) (uuid targetBlock) h []
           = Returned h2 (calls1 @ [MoveBlock c cursor False False, ConsoleError ''moveBlock error'',
                                    ShowMsg ''move block error'' ''error''])
         \<and> relocate moveBlock afterLoop srcBlock targetBlock h
           = (h2, calls1 @ [MoveBlock c cursor False False, ConsoleError ''moveBlock error'',
                            ShowMsg ''move block error'' ''error''])
         \<and> calls1 = map2 moveCall pre (uuid targetBlock # pre)
         \<and> cursor = last (uuid targetBlock # pre)"
proof -
  have r: "moveChildren moveBlock (children srcBlock) (uuid targetBlock) h []
           = Returned h2 (calls1 @ [MoveBlock c cursor False False, ConsoleError ''moveBlock error'',
                                    ShowMsg ''move block error'' ''error''])"
    unfolding assms(3) by (simp add: moveChildren_append assms(1) assms(2))
  then have m: "relocate moveBlock afterLoop srcBlock targetBlock h
           = (h2, calls1 @ [MoveBlock c cursor False False, ConsoleError ''moveBlock error'',
                            ShowMsg ''move block error'' ''error''])"
    by (simp add: relocate_def)
  from moveChildren_calls [OF assms(1)] r m show ?thesis
    by simp
qed

text \<open>
  A host that refuses to move \<open>c2\<close>: of the children \<open>c1, c2, c3\<close>, \<open>c1\<close> stays moved,
  \<open>c3\<close> is never attempted.
\<close>

theorem moveChildren_abort_witness:
  "moveChildren (\<lambda>page child anchor. if child = ''c2'' then (False, page) else pageMove page child anchor)
     [''c1''] ''T'' [''T''] [] = Completed [''T'', ''c1''] ''c1'' [MoveBlock ''c1'' ''T'' False False]
   \<and> (if ''c2'' = ''c2'' then (False, [''T'', ''c1'']) else pageMove [''T'', ''c1''] ''c2'' ''c1'')
       = (False, [''T'', ''c1''])
   \<and> relocate (\<lambda>page child anchor. if child = ''c2'' then (False, page) else pageMove page child anchor)
       (\<lambda>page calls. ([], calls))
       \<lparr>uuid = ''s'', content = ''Title'', properties = None, propertiesOrder = [], refs = [],
        children = [''c1'', ''c2'', ''c3'']\<rparr>
       \<lparr>uuid = ''T'', content = [], properties = None, propertiesOrder = [], refs = [],
        children = []\<rparr>
       [''T'']
     = ([''T'', ''c1''],
        [MoveBlock ''c1'' ''T'' False False, MoveBlock ''c2'' ''c1'' False False, ConsoleError ''moveBlock error'',
         ShowMsg ''move block error'' ''error''])"
proof -
  define mv where "mv = (\<lambda>page child anchor.
      if child = ''c2'' then (False, page) else pageMove page child anchor)"
  define src where "src = \<lparr>uuid = ''s'', content = ''Title'', properties = None,
      propertiesOrder = [], refs = [], children = [''c1'', ''c2'', ''c3'']\<rparr>"
  define tgt where "tgt = \<lparr>uuid = ''T'', content = [], properties = None,
      propertiesOrder = [], refs = [], children = []\<rparr>"
  have a: "moveChildren mv [''c1''] ''T'' [''T''] [] = Completed [''T'', ''c1''] ''c1'' [MoveBlock ''c1'' ''T'' False False]"
    unfolding mv_def by code_simp
  then have h1: "moveChildren mv [''c1''] (uuid tgt) [''T''] []
      = Completed [''T'', ''c1''] ''c1'' [MoveBlock ''c1'' ''T'' False False]"
    by (simp add: tgt_def)
  have h2: "mv [''T'', ''c1''] ''c2'' ''c1'' = (False, [''T'', ''c1''])"
    by (simp add: mv_def)
  have h3: "children src = [''c1''] @ ''c2'' # [''c3'']"
    by (simp add: src_def)
  from moveChildren_abort [OF h1 h2 h3, of "\<lambda>page calls. ([], calls)", THEN conjunct2, THEN conjunct1]
  have r: "relocate mv (\<lambda>page calls. ([], calls)) src tgt [''T'']
     = ([''T'', ''c1''],
        [MoveBlock ''c1'' ''T'' False False, MoveBlock ''c2'' ''c1'' False False, ConsoleError ''moveBlock error'',
         ShowMsg ''move block error'' ''error''])"
    by simp
  from a h2 r show ?thesis
    unfolding mv_def src_def tgt_def by (intro conjI)
qed

end
